theory Spec2Isabelle
  imports Complex_Main "HOL-Library.Multiset" "HOL-Library.Product_Lexorder"
begin

section \<open>Python text primitives\<close>

text \<open>
  A Python \<^verbatim>\<open>str\<close> is a sequence of code points.  The model covers the code points
  0..255 (ASCII and the Latin-1 block), one \<^typ>\<open>char\<close> each; the tables below are
  the rows of CPython's Unicode database for that range.  Floats are modelled as exact
  rationals: the program only compares them with the constants 0, 0.5, 0.7, 0.8 and 1
  and takes maxima.
\<close>

text \<open>\<^verbatim>\<open>str.isspace\<close>, the class \<^verbatim>\<open>\s\<close> of \<^verbatim>\<open>re\<close>, and what \<^verbatim>\<open>strip()\<close> and
  \<^verbatim>\<open>split()\<close> remove.\<close>

definition isspace :: "char \<Rightarrow> bool" where
  "isspace c = (c \<in> set [CHR 0x09, CHR 0x0A, CHR 0x0B, CHR 0x0C, CHR 0x0D,
     CHR 0x1C, CHR 0x1D, CHR 0x1E, CHR 0x1F, CHR 0x20, CHR 0x85, CHR 0xA0])"

text \<open>The class \<^verbatim>\<open>\w\<close> of \<^verbatim>\<open>re\<close> on \<^verbatim>\<open>str\<close> patterns: alphanumeric or underscore.\<close>

definition is_word :: "char \<Rightarrow> bool" where
  "is_word c = (c \<in> set (''0123456789ABCDEFGHIJKLMNOPQRSTUVWXYZ_abcdefghijklmnopqrstuvwxyz'' @
     [CHR 0xAA, CHR 0xB2, CHR 0xB3, CHR 0xB5, CHR 0xB9, CHR 0xBA, CHR 0xBC, CHR 0xBD, CHR 0xBE,
      CHR 0xC0, CHR 0xC1, CHR 0xC2, CHR 0xC3, CHR 0xC4, CHR 0xC5, CHR 0xC6, CHR 0xC7,
      CHR 0xC8, CHR 0xC9, CHR 0xCA, CHR 0xCB, CHR 0xCC, CHR 0xCD, CHR 0xCE, CHR 0xCF,
      CHR 0xD0, CHR 0xD1, CHR 0xD2, CHR 0xD3, CHR 0xD4, CHR 0xD5, CHR 0xD6,
      CHR 0xD8, CHR 0xD9, CHR 0xDA, CHR 0xDB, CHR 0xDC, CHR 0xDD, CHR 0xDE, CHR 0xDF,
      CHR 0xE0, CHR 0xE1, CHR 0xE2, CHR 0xE3, CHR 0xE4, CHR 0xE5, CHR 0xE6, CHR 0xE7,
      CHR 0xE8, CHR 0xE9, CHR 0xEA, CHR 0xEB, CHR 0xEC, CHR 0xED, CHR 0xEE, CHR 0xEF,
      CHR 0xF0, CHR 0xF1, CHR 0xF2, CHR 0xF3, CHR 0xF4, CHR 0xF5, CHR 0xF6,
      CHR 0xF8, CHR 0xF9, CHR 0xFA, CHR 0xFB, CHR 0xFC, CHR 0xFD, CHR 0xFE, CHR 0xFF]))"

text \<open>\<^verbatim>\<open>str.lower\<close>, one character at a time (in this range every character lowers to
  one character): the upper-case letters and their lower-case partners.\<close>

definition upper_chars :: "char list" where
  "upper_chars = ''ABCDEFGHIJKLMNOPQRSTUVWXYZ'' @
     [CHR 0xC0, CHR 0xC1, CHR 0xC2, CHR 0xC3, CHR 0xC4, CHR 0xC5, CHR 0xC6, CHR 0xC7,
      CHR 0xC8, CHR 0xC9, CHR 0xCA, CHR 0xCB, CHR 0xCC, CHR 0xCD, CHR 0xCE, CHR 0xCF,
      CHR 0xD0, CHR 0xD1, CHR 0xD2, CHR 0xD3, CHR 0xD4, CHR 0xD5, CHR 0xD6,
      CHR 0xD8, CHR 0xD9, CHR 0xDA, CHR 0xDB, CHR 0xDC, CHR 0xDD, CHR 0xDE]"

definition lower_chars :: "char list" where
  "lower_chars = ''abcdefghijklmnopqrstuvwxyz'' @
     [CHR 0xE0, CHR 0xE1, CHR 0xE2, CHR 0xE3, CHR 0xE4, CHR 0xE5, CHR 0xE6, CHR 0xE7,
      CHR 0xE8, CHR 0xE9, CHR 0xEA, CHR 0xEB, CHR 0xEC, CHR 0xED, CHR 0xEE, CHR 0xEF,
      CHR 0xF0, CHR 0xF1, CHR 0xF2, CHR 0xF3, CHR 0xF4, CHR 0xF5, CHR 0xF6,
      CHR 0xF8, CHR 0xF9, CHR 0xFA, CHR 0xFB, CHR 0xFC, CHR 0xFD, CHR 0xFE]"

definition lower_char :: "char \<Rightarrow> char" where
  "lower_char c = (case map_of (zip upper_chars lower_chars) c of Some d \<Rightarrow> d | None \<Rightarrow> c)"

definition lower :: "string \<Rightarrow> string" where
  "lower s = map lower_char s"

text \<open>\<^verbatim>\<open>s.strip()\<close>: drop the whitespace at both ends.\<close>

definition strip :: "string \<Rightarrow> string" where
  "strip s = rev (dropWhile isspace (rev (dropWhile isspace s)))"

text \<open>\<^verbatim>\<open>s.split()\<close>: the maximal runs of non-whitespace characters, in order.\<close>

function split :: "string \<Rightarrow> string list" where
  "split s = (let s' = dropWhile isspace s in
     if s' = [] then []
     else takeWhile (\<lambda>c. \<not> isspace c) s' # split (dropWhile (\<lambda>c. \<not> isspace c) s'))"
  by pat_completeness auto

lemma dropWhile_not_space_shorter:
  "dropWhile isspace s \<noteq> [] \<Longrightarrow>
   length (dropWhile (\<lambda>c. \<not> isspace c) (dropWhile isspace s)) < length s"
proof -
  assume ne: "dropWhile isspace s \<noteq> []"
  then obtain c cs where eq: "dropWhile isspace s = c # cs"
    by (cases "dropWhile isspace s") auto
  then have "\<not> isspace c"
    using hd_dropWhile [of isspace s] ne by force
  then have "length (dropWhile (\<lambda>c. \<not> isspace c) (c # cs)) \<le> length cs"
    by (simp add: length_dropWhile_le)
  moreover have "length (c # cs) \<le> length s"
    using eq length_dropWhile_le [of isspace s] by simp
  ultimately show ?thesis
    using eq by simp
qed

termination split
  by (relation "measure length") (auto simp: dropWhile_not_space_shorter)

text \<open>\<^verbatim>\<open>x in y\<close> on strings: \<open>x\<close> occurs in \<open>y\<close> as a contiguous block.\<close>

fun is_prefix :: "string \<Rightarrow> string \<Rightarrow> bool" where
  "is_prefix [] ys = True"
| "is_prefix (x # xs) [] = False"
| "is_prefix (x # xs) (y # ys) = (x = y \<and> is_prefix xs ys)"

fun str_in :: "string \<Rightarrow> string \<Rightarrow> bool" where
  "str_in x [] = (x = [])"
| "str_in x (c # cs) = (is_prefix x (c # cs) \<or> str_in x cs)"

section \<open>Input values and their string conversions\<close>

text \<open>
  The values the metric receives: text, a mapping with string keys (in insertion order),
  a sequence, or any other object.  Of an object only the outcomes of \<^verbatim>\<open>str(x)\<close> and
  \<^verbatim>\<open>repr(x)\<close> matter: each returns a string or raises.  \<open>Exception msg\<close> is an instance
  of Python's \<^verbatim>\<open>Exception\<close> whose \<^verbatim>\<open>str\<close> is \<open>msg\<close>.
\<close>

datatype exn = Exception string

datatype pyval =
    Str string
  | Dict "(string \<times> pyval) list"
  | List "pyval list"
  | Other "exn + string" "exn + string"

text \<open>\<^verbatim>\<open>repr\<close> of a string: quoted with \<^verbatim>\<open>'\<close>, or with \<^verbatim>\<open>"\<close> when the text holds a
  \<^verbatim>\<open>'\<close> and no \<^verbatim>\<open>"\<close>; the quote, the backslash and the unprintable characters
  escaped.\<close>

definition hex_digit :: "nat \<Rightarrow> char" where
  "hex_digit n = ''0123456789abcdef'' ! (n mod 16)"

definition repr_char :: "char \<Rightarrow> char \<Rightarrow> string" where
  "repr_char q c =
     (let n = (of_char c :: nat) in
      if c = q \<or> c = CHR 0x5C then [CHR 0x5C, c]
      else if c = CHR 0x09 then [CHR 0x5C, CHR ''t'']
      else if c = CHR 0x0A then [CHR 0x5C, CHR ''n'']
      else if c = CHR 0x0D then [CHR 0x5C, CHR ''r'']
      else if n < 32 \<or> (127 \<le> n \<and> n \<le> 160) \<or> n = 173
        then [CHR 0x5C, CHR ''x'', hex_digit (n div 16), hex_digit n]
      else [c])"

definition repr_str :: "string \<Rightarrow> string" where
  "repr_str s =
     (let q = (if CHR 0x27 \<in> set s \<and> CHR 0x22 \<notin> set s then CHR 0x22 else CHR 0x27)
      in [q] @ concat (map (repr_char q) s) @ [q])"

text \<open>\<^verbatim>\<open>repr\<close> of a value, of the items of a list and of the items of a dict (joined by
  \<^verbatim>\<open>", "\<close>): the first conversion that raises ends the whole conversion.\<close>

fun py_repr :: "pyval \<Rightarrow> exn + string"
  and repr_items :: "pyval list \<Rightarrow> exn + string"
  and repr_pairs :: "(string \<times> pyval) list \<Rightarrow> exn + string" where
  "py_repr (Str s) = Inr (repr_str s)"
| "py_repr (Dict kvs) =
     (case repr_pairs kvs of Inl e \<Rightarrow> Inl e | Inr t \<Rightarrow> Inr (''{'' @ t @ ''}''))"
| "py_repr (List vs) =
     (case repr_items vs of Inl e \<Rightarrow> Inl e | Inr t \<Rightarrow> Inr (''['' @ t @ '']''))"
| "py_repr (Other s r) = r"
| "repr_items [] = Inr []"
| "repr_items (v # vs) =
     (case py_repr v of Inl e \<Rightarrow> Inl e
      | Inr t \<Rightarrow> (if vs = [] then Inr t
          else (case repr_items vs of Inl e \<Rightarrow> Inl e | Inr ts \<Rightarrow> Inr (t @ '', '' @ ts))))"
| "repr_pairs [] = Inr []"
| "repr_pairs (kv # kvs) =
     (case py_repr (snd kv) of Inl e \<Rightarrow> Inl e
      | Inr t \<Rightarrow> (if kvs = [] then Inr (repr_str (fst kv) @ '': '' @ t)
          else (case repr_pairs kvs of Inl e \<Rightarrow> Inl e
            | Inr ts \<Rightarrow> Inr (repr_str (fst kv) @ '': '' @ t @ '', '' @ ts))))"

text \<open>\<^verbatim>\<open>str(x)\<close>: the text itself, the \<^verbatim>\<open>repr\<close> of a dict or list, the object's own
  conversion.\<close>

fun py_str :: "pyval \<Rightarrow> exn + string" where
  "py_str (Str s) = Inr s"
| "py_str (Other s r) = s"
| "py_str v = py_repr v"

text \<open>\<^verbatim>\<open>key in d\<close> and \<^verbatim>\<open>d[key]\<close> together: the value stored under the key, if any.\<close>

definition dict_get :: "(string \<times> pyval) list \<Rightarrow> string \<Rightarrow> pyval option" where
  "dict_get kvs k = map_of kvs k"

section \<open>The extractor: \<^verbatim>\<open>WorkingRAGMetric._extract_text\<close>\<close>

text \<open>The loop over the field names \<^verbatim>\<open>[self.output_field, "answer", "response", "text"]\<close>:
  \<open>Some r\<close> when an iteration returns \<open>r\<close>, \<open>None\<close> when the loop runs to its end.\<close>

fun try_fields :: "string list \<Rightarrow> (string \<times> pyval) list \<Rightarrow> (exn + string) option" where
  "try_fields [] kvs = None"
| "try_fields (field # fields) kvs =
     (case dict_get kvs field of
        None \<Rightarrow> try_fields fields kvs
      | Some (Str s) \<Rightarrow> Some (Inr (strip s))
      | Some (Dict d) \<Rightarrow> Some (py_str (Dict d))
      | Some (List l) \<Rightarrow> Some (py_str (List l))
      | Some (Other s r) \<Rightarrow> try_fields fields kvs)"

text \<open>\<^verbatim>\<open>str(v).strip()\<close>, raising what \<^verbatim>\<open>str\<close> raises.\<close>

definition str_strip :: "pyval \<Rightarrow> exn + string" where
  "str_strip v = (case py_str v of Inl e \<Rightarrow> Inl e | Inr s \<Rightarrow> Inr (strip s))"

text \<open>The nested path \<^verbatim>\<open>data["outputs"]["answer"]\<close>: \<open>Some r\<close> when it returns.\<close>

definition nested_answer :: "(string \<times> pyval) list \<Rightarrow> (exn + string) option" where
  "nested_answer kvs =
     (case dict_get kvs ''outputs'' of
        Some (Dict outputs) \<Rightarrow>
          (case dict_get outputs ''answer'' of
             Some v \<Rightarrow> Some (str_strip v)
           | None \<Rightarrow> None)
      | _ \<Rightarrow> None)"

fun extract_text :: "string \<Rightarrow> pyval \<Rightarrow> exn + string" where
  "extract_text output_field (Str s) = Inr (strip s)"
| "extract_text output_field (Dict kvs) =
     (case try_fields [output_field, ''answer'', ''response'', ''text''] kvs of
        Some r \<Rightarrow> r
      | None \<Rightarrow>
          (case nested_answer kvs of
             Some r \<Rightarrow> r
           | None \<Rightarrow> str_strip (Dict kvs)))"
| "extract_text output_field v = str_strip v"

section \<open>The normalizer: \<^verbatim>\<open>WorkingRAGMetric._normalize_text\<close>\<close>

text \<open>\<^verbatim>\<open>re.sub(r'\s+', ' ', s)\<close>: every maximal run of whitespace becomes one space.\<close>

function collapse_ws :: "string \<Rightarrow> string" where
  "collapse_ws [] = []"
| "collapse_ws (c # cs) =
     (if isspace c then CHR 0x20 # collapse_ws (dropWhile isspace cs)
      else c # collapse_ws cs)"
  by pat_completeness auto

termination collapse_ws
  by (relation "measure length") (auto simp: length_dropWhile_le less_Suc_eq_le)

text \<open>\<^verbatim>\<open>re.sub(r'[.,!?;:"\']', '', s)\<close>: the eight punctuation characters are deleted.\<close>

definition punctuation :: "char list" where
  "punctuation = [CHR ''.'', CHR '','', CHR ''!'', CHR ''?'', CHR '';'', CHR '':'', CHR 0x22, CHR 0x27]"

definition remove_punct :: "string \<Rightarrow> string" where
  "remove_punct s = filter (\<lambda>c. c \<notin> set punctuation) s"

text \<open>
  \<^verbatim>\<open>re.sub(r'\b(the|a|an)\b', '', s, flags=re.IGNORECASE)\<close>.  \<open>boundary pw s\<close> is
  \<^verbatim>\<open>\b\<close> at a position whose previous character is a word character iff \<open>pw\<close> and
  whose rest is \<open>s\<close>.  \<open>ci_literal w s\<close>: the lower-case literal \<open>w\<close> matches the start
  of \<open>s\<close>, ignoring case.  \<open>match_article\<close> tries the alternatives in the order of the
  pattern and gives the length of the match.  \<open>sub_articles\<close> scans from left to right,
  deletes each match and resumes after it.
\<close>

definition boundary :: "bool \<Rightarrow> string \<Rightarrow> bool" where
  "boundary pw s = (pw \<noteq> (case s of [] \<Rightarrow> False | c # _ \<Rightarrow> is_word c))"

definition ci_literal :: "string \<Rightarrow> string \<Rightarrow> bool" where
  "ci_literal w s = (length w \<le> length s \<and> lower (take (length w) s) = w)"

definition alternative :: "string \<Rightarrow> string \<Rightarrow> bool" where
  "alternative w s = (ci_literal w s \<and> boundary True (drop (length w) s))"

definition match_article :: "bool \<Rightarrow> string \<Rightarrow> nat option" where
  "match_article pw s =
     (if \<not> boundary pw s then None
      else if alternative ''the'' s then Some 3
      else if alternative ''a'' s then Some 1
      else if alternative ''an'' s then Some 2
      else None)"

function sub_articles :: "bool \<Rightarrow> string \<Rightarrow> string" where
  "sub_articles pw [] = []"
| "sub_articles pw (c # cs) =
     (case match_article pw (c # cs) of
        Some n \<Rightarrow> sub_articles True (drop n (c # cs))
      | None \<Rightarrow> c # sub_articles (is_word c) cs)"
  by pat_completeness auto

lemma match_article_pos: "match_article pw s = Some n \<Longrightarrow> 0 < n"
  by (auto simp: match_article_def split: if_splits)

termination sub_articles
proof (relation "measure (\<lambda>(pw, s). length s)")
  show "wf (measure (\<lambda>(pw, s). length s))"
    by simp
next
  fix pw :: bool and c :: char and cs :: string and n :: nat
  assume "match_article pw (c # cs) = Some n"
  then have "0 < n"
    by (rule match_article_pos)
  then show "((True, drop n (c # cs)), (pw, c # cs)) \<in> measure (\<lambda>(pw, s). length s)"
    by simp
next
  fix pw :: bool and c :: char and cs :: string
  show "((is_word c, cs), (pw, c # cs)) \<in> measure (\<lambda>(pw, s). length s)"
    by simp
qed

definition normalize_text :: "string \<Rightarrow> string" where
  "normalize_text t0 =
     (let t1 = collapse_ws (strip t0);
          t2 = remove_punct t1;
          t3 = sub_articles False t2
      in strip t3)"

section \<open>The sequence matcher: \<^verbatim>\<open>difflib.SequenceMatcher(None, a, b)\<close>\<close>

text \<open>
  The program calls the standard library's matcher with no junk predicate and the default
  \<^verbatim>\<open>autojunk=True\<close>.  \<open>b2j_all\<close> is the index built by the first loop of
  \<^verbatim>\<open>__chain_b\<close>: for each character of \<open>b\<close> the positions where it stands, ascending.
  \<open>chain_b\<close> then purges the popular characters: when \<open>b\<close> has 200 characters or more,
  those standing at more than \<open>n div 100 + 1\<close> positions.
\<close>

definition b2j_all :: "string \<Rightarrow> (char \<rightharpoonup> nat list)" where
  "b2j_all b =
     fold (\<lambda>(i, elt) b2j. b2j(elt \<mapsto> (case b2j elt of None \<Rightarrow> [] | Some indices \<Rightarrow> indices) @ [i]))
       (enumerate 0 b) Map.empty"

definition chain_b :: "string \<Rightarrow> (char \<rightharpoonup> nat list)" where
  "chain_b b =
     (let b2j = b2j_all b; n = length b in
      if 200 \<le> n then
        (let ntest = n div 100 + 1 in
         (\<lambda>elt. case b2j elt of None \<Rightarrow> None
            | Some idxs \<Rightarrow> if ntest < length idxs then None else Some idxs))
      else b2j)"

text \<open>The junk set \<^verbatim>\<open>bjunk\<close> is empty, since \<^verbatim>\<open>isjunk\<close> is \<^verbatim>\<open>None\<close>.\<close>

definition isbjunk :: "char \<Rightarrow> bool" where
  "isbjunk c = False"

type_synonym match = "nat \<times> nat \<times> nat"

text \<open>
  The inner loop of \<^verbatim>\<open>find_longest_match\<close> over the positions \<open>j\<close> of \<open>a[i]\<close> in \<open>b\<close>,
  with its \<^verbatim>\<open>continue\<close> and \<^verbatim>\<open>break\<close>.  \<^verbatim>\<open>j2len.get(j-1, 0)\<close> at \<open>j = 0\<close> asks for the
  key \<open>-1\<close>, which no dict of the loop holds: the value is 0.
\<close>

fun scan_row :: "nat \<Rightarrow> nat \<Rightarrow> nat \<Rightarrow> (nat \<rightharpoonup> nat) \<Rightarrow> nat list \<Rightarrow>
    (nat \<rightharpoonup> nat) \<times> match \<Rightarrow> (nat \<rightharpoonup> nat) \<times> match" where
  "scan_row i blo bhi j2len [] st = st"
| "scan_row i blo bhi j2len (j # js) (newj2len, besti, bestj, bestsize) =
     (if j < blo then scan_row i blo bhi j2len js (newj2len, besti, bestj, bestsize)
      else if bhi \<le> j then (newj2len, besti, bestj, bestsize)
      else
        (let k = (if j = 0 then 0 else case j2len (j - 1) of None \<Rightarrow> 0 | Some v \<Rightarrow> v) + 1
         in if bestsize < k
            then scan_row i blo bhi j2len js (newj2len(j \<mapsto> k), i + 1 - k, j + 1 - k, k)
            else scan_row i blo bhi j2len js (newj2len(j \<mapsto> k), besti, bestj, bestsize)))"

text \<open>The outer loop \<^verbatim>\<open>for i in range(alo, ahi)\<close>: the state is \<open>(j2len, best)\<close>.\<close>

definition scan_rows :: "string \<Rightarrow> (char \<rightharpoonup> nat list) \<Rightarrow> nat \<Rightarrow> nat \<Rightarrow> nat \<Rightarrow> nat \<Rightarrow>
    (nat \<rightharpoonup> nat) \<times> match" where
  "scan_rows a b2j alo ahi blo bhi =
     fold (\<lambda>i (j2len, best).
         scan_row i blo bhi j2len (case b2j (a ! i) of None \<Rightarrow> [] | Some js \<Rightarrow> js)
           (Map.empty, best))
       [alo..<ahi] (Map.empty, alo, blo, 0)"

text \<open>The four \<^verbatim>\<open>while\<close> loops that extend the best block at each end, first by
  characters that are not junk, then by junk.\<close>

function extend_left :: "(char \<Rightarrow> bool) \<Rightarrow> string \<Rightarrow> string \<Rightarrow> nat \<Rightarrow> nat \<Rightarrow> match \<Rightarrow> match" where
  "extend_left P a b alo blo (besti, bestj, bestsize) =
     (if alo < besti \<and> blo < bestj \<and> P (b ! (bestj - 1)) \<and> a ! (besti - 1) = b ! (bestj - 1)
      then extend_left P a b alo blo (besti - 1, bestj - 1, bestsize + 1)
      else (besti, bestj, bestsize))"
  by pat_completeness auto

termination extend_left
  by (relation "measure (\<lambda>(P, a, b, alo, blo, besti, bestj, bestsize). besti)") auto

function extend_right :: "(char \<Rightarrow> bool) \<Rightarrow> string \<Rightarrow> string \<Rightarrow> nat \<Rightarrow> nat \<Rightarrow> match \<Rightarrow> match" where
  "extend_right P a b ahi bhi (besti, bestj, bestsize) =
     (if besti + bestsize < ahi \<and> bestj + bestsize < bhi \<and> P (b ! (bestj + bestsize))
         \<and> a ! (besti + bestsize) = b ! (bestj + bestsize)
      then extend_right P a b ahi bhi (besti, bestj, bestsize + 1)
      else (besti, bestj, bestsize))"
  by pat_completeness auto

termination extend_right
  by (relation "measure (\<lambda>(P, a, b, ahi, bhi, besti, bestj, bestsize). ahi - (besti + bestsize))")
    auto

definition find_longest_match :: "string \<Rightarrow> string \<Rightarrow> (char \<rightharpoonup> nat list) \<Rightarrow>
    nat \<Rightarrow> nat \<Rightarrow> nat \<Rightarrow> nat \<Rightarrow> match" where
  "find_longest_match a b b2j alo ahi blo bhi =
     (let m0 = snd (scan_rows a b2j alo ahi blo bhi);
          m1 = extend_left (\<lambda>c. \<not> isbjunk c) a b alo blo m0;
          m2 = extend_right (\<lambda>c. \<not> isbjunk c) a b ahi bhi m1;
          m3 = extend_left isbjunk a b alo blo m2;
          m4 = extend_right isbjunk a b ahi bhi m3
      in m4)"

subsection \<open>The block found lies inside the two ranges\<close>

text \<open>\<open>row_ok\<close>: the lengths stored for a row end inside the ranges scanned so far.
  \<open>best_ok\<close>: the best block is the initial \<open>(alo, blo, 0)\<close> or lies inside both ranges.\<close>

definition row_ok :: "nat \<Rightarrow> nat \<Rightarrow> nat \<Rightarrow> (nat \<rightharpoonup> nat) \<Rightarrow> bool" where
  "row_ok alo blo i m = (\<forall>j v. m j = Some v \<longrightarrow> v + alo \<le> i \<and> v + blo \<le> j + 1)"

definition best_ok :: "nat \<Rightarrow> nat \<Rightarrow> nat \<Rightarrow> nat \<Rightarrow> match \<Rightarrow> bool" where
  "best_ok alo ahi blo bhi m =
     (case m of (bi, bj, bk) \<Rightarrow>
        (bk = 0 \<and> bi = alo \<and> bj = blo) \<or> (alo \<le> bi \<and> bi + bk \<le> ahi \<and> blo \<le> bj \<and> bj + bk \<le> bhi))"

lemma row_ok_empty: "row_ok alo blo i Map.empty"
  by (simp add: row_ok_def)

lemma best_ok_mono: "best_ok alo ahi blo bhi m \<Longrightarrow> ahi \<le> ahi' \<Longrightarrow> best_ok alo ahi' blo bhi m"
  by (auto simp: best_ok_def split: prod.splits)

lemma scan_row_ok:
  assumes "row_ok alo blo i j2len" and "alo \<le> i"
    and "row_ok alo blo (Suc i) new" and "best_ok alo (Suc i) blo bhi best"
  shows "row_ok alo blo (Suc i) (fst (scan_row i blo bhi j2len js (new, best)))
       \<and> best_ok alo (Suc i) blo bhi (snd (scan_row i blo bhi j2len js (new, best)))"
  using assms(3,4)
proof (induction js arbitrary: new best)
  case Nil
  then show ?case by simp
next
  case (Cons j js)
  obtain bi bj bk where best: "best = (bi, bj, bk)"
    by (cases best) auto
  show ?case
  proof (cases "j < blo")
    case True
    then show ?thesis
      using Cons best by simp
  next
    case lo: False
    show ?thesis
    proof (cases "bhi \<le> j")
      case True
      then show ?thesis
        using Cons.prems best lo by simp
    next
      case hi: False
      define p where "p = (if j = 0 then 0 else case j2len (j - 1) of None \<Rightarrow> 0 | Some v \<Rightarrow> v)"
      define k where "k = p + 1"
      have p1: "p + alo \<le> i"
      proof (cases "j = 0 \<or> j2len (j - 1) = None")
        case True
        then show ?thesis using assms(2) by (auto simp: p_def)
      next
        case False
        then obtain v where "j2len (j - 1) = Some v" "p = v" by (auto simp: p_def)
        then show ?thesis using assms(1) by (auto simp: row_ok_def)
      qed
      have p2: "p + blo \<le> j"
      proof (cases "j = 0 \<or> j2len (j - 1) = None")
        case True
        then show ?thesis using lo by (auto simp: p_def)
      next
        case False
        then obtain v where v: "j2len (j - 1) = Some v" "p = v" and "0 < j" by (auto simp: p_def)
        then have "v + blo \<le> (j - 1) + 1" using assms(1) unfolding row_ok_def by blast
        then show ?thesis using v \<open>0 < j\<close> by simp
      qed
      have new': "row_ok alo blo (Suc i) (new(j \<mapsto> k))"
        using Cons.prems(1) p1 p2 by (auto simp: row_ok_def k_def)
      have best': "best_ok alo (Suc i) blo bhi (i + 1 - k, j + 1 - k, k)"
        using p1 p2 hi by (auto simp: best_ok_def k_def)
      have step: "scan_row i blo bhi j2len (j # js) (new, bi, bj, bk) =
          (if bk < k then scan_row i blo bhi j2len js (new(j \<mapsto> k), i + 1 - k, j + 1 - k, k)
           else scan_row i blo bhi j2len js (new(j \<mapsto> k), bi, bj, bk))"
        using lo hi unfolding k_def p_def by (simp add: Let_def)
      have A: "row_ok alo blo (Suc i) (fst (scan_row i blo bhi j2len js (new(j \<mapsto> k), i + 1 - k, j + 1 - k, k)))"
          "best_ok alo (Suc i) blo bhi (snd (scan_row i blo bhi j2len js (new(j \<mapsto> k), i + 1 - k, j + 1 - k, k)))"
        using Cons.IH [OF new' best'] by blast+
      have B: "row_ok alo blo (Suc i) (fst (scan_row i blo bhi j2len js (new(j \<mapsto> k), bi, bj, bk)))"
          "best_ok alo (Suc i) blo bhi (snd (scan_row i blo bhi j2len js (new(j \<mapsto> k), bi, bj, bk)))"
        using Cons.IH [OF new' Cons.prems(2) [unfolded best]] by blast+
      show ?thesis
        unfolding best step by (cases "bk < k") (simp_all only: if_True if_False A B)
    qed
  qed
qed

lemma scan_rows_ok:
  "best_ok alo ahi blo bhi (snd (scan_rows a b2j alo ahi blo bhi))
   \<and> (alo \<le> ahi \<longrightarrow> row_ok alo blo ahi (fst (scan_rows a b2j alo ahi blo bhi)))"
proof (induction ahi)
  case 0
  then show ?case
    by (simp add: scan_rows_def best_ok_def row_ok_empty)
next
  case (Suc ahi)
  show ?case
  proof (cases "alo \<le> ahi")
    case True
    obtain j2len best where st: "scan_rows a b2j alo ahi blo bhi = (j2len, best)"
      by (cases "scan_rows a b2j alo ahi blo bhi") auto
    have eq: "scan_rows a b2j alo (Suc ahi) blo bhi =
        scan_row ahi blo bhi j2len (case b2j (a ! ahi) of None \<Rightarrow> [] | Some js \<Rightarrow> js) (Map.empty, best)"
      using True st by (simp add: scan_rows_def)
    have "row_ok alo blo ahi j2len" "best_ok alo (Suc ahi) blo bhi best"
      using Suc True st best_ok_mono [of alo ahi blo bhi best "Suc ahi"] by auto
    then show ?thesis
      using scan_row_ok [OF _ True row_ok_empty, of blo j2len bhi best] eq by simp
  next
    case False
    then show ?thesis
      by (auto simp: scan_rows_def best_ok_def row_ok_empty)
  qed
qed

declare extend_left.simps [simp del]
declare extend_right.simps [simp del]

lemma extend_left_ok:
  "best_ok alo ahi blo bhi m \<Longrightarrow> best_ok alo ahi blo bhi (extend_left P a b alo blo m)"
proof (induction P a b alo blo m rule: extend_left.induct)
  case (1 P a b alo blo besti bestj bestsize)
  show ?case
  proof (cases "alo < besti \<and> blo < bestj \<and> P (b ! (bestj - 1)) \<and> a ! (besti - 1) = b ! (bestj - 1)")
    case True
    have "best_ok alo ahi blo bhi (besti - 1, bestj - 1, bestsize + 1)"
      using "1.prems" True by (auto simp: best_ok_def)
    then show ?thesis
      using "1.IH" True by (subst extend_left.simps) simp
  next
    case False
    then show ?thesis
      using "1.prems" by (subst extend_left.simps) auto
  qed
qed

lemma extend_right_ok:
  "best_ok alo ahi blo bhi m \<Longrightarrow> best_ok alo ahi blo bhi (extend_right P a b ahi bhi m)"
proof (induction P a b ahi bhi m rule: extend_right.induct)
  case (1 P a b ahi bhi besti bestj bestsize)
  show ?case
  proof (cases "besti + bestsize < ahi \<and> bestj + bestsize < bhi \<and> P (b ! (bestj + bestsize))
         \<and> a ! (besti + bestsize) = b ! (bestj + bestsize)")
    case True
    have "best_ok alo ahi blo bhi (besti, bestj, bestsize + 1)"
      using "1.prems" True by (auto simp: best_ok_def)
    then show ?thesis
      using "1.IH" True by (subst extend_right.simps) simp
  next
    case False
    then show ?thesis
      using "1.prems" by (subst extend_right.simps) auto
  qed
qed

lemma find_longest_match_ok:
  "best_ok alo ahi blo bhi (find_longest_match a b b2j alo ahi blo bhi)"
  unfolding find_longest_match_def Let_def
  by (intro extend_left_ok extend_right_ok) (simp add: scan_rows_ok)

lemma find_longest_match_bounds:
  assumes "find_longest_match a b b2j alo ahi blo bhi = (i, j, k)" and "k \<noteq> 0"
  shows "alo \<le> i \<and> i + k \<le> ahi \<and> blo \<le> j \<and> j + k \<le> bhi"
  using find_longest_match_ok [of alo ahi blo bhi a b b2j] assms
  by (simp add: best_ok_def)

subsection \<open>\<^verbatim>\<open>get_matching_blocks\<close> and \<^verbatim>\<open>ratio\<close>\<close>

text \<open>
  The work list \<^verbatim>\<open>queue\<close> is a Python list used as a stack (\<^verbatim>\<open>append\<close>, \<^verbatim>\<open>pop()\<close>): the
  model keeps it with the top first.  Each step pops a pair of ranges, finds its longest
  block and, when the block is not empty, appends it to \<^verbatim>\<open>matching_blocks\<close> and pushes
  the ranges to its left and to its right.
\<close>

function match_loop :: "string \<Rightarrow> string \<Rightarrow> (char \<rightharpoonup> nat list) \<Rightarrow>
    (nat \<times> nat \<times> nat \<times> nat) list \<Rightarrow> match list \<Rightarrow> match list" where
  "match_loop a b b2j [] matching_blocks = matching_blocks"
| "match_loop a b b2j ((alo, ahi, blo, bhi) # queue) matching_blocks =
     (case find_longest_match a b b2j alo ahi blo bhi of
        (i, j, k) \<Rightarrow>
          if k \<noteq> 0 then
            match_loop a b b2j
              ((if i + k < ahi \<and> j + k < bhi then [(i + k, ahi, j + k, bhi)] else []) @
               (if alo < i \<and> blo < j then [(alo, i, blo, j)] else []) @ queue)
              (matching_blocks @ [(i, j, k)])
          else match_loop a b b2j queue matching_blocks)"
  by pat_completeness auto

definition queue_size :: "(nat \<times> nat \<times> nat \<times> nat) list \<Rightarrow> nat" where
  "queue_size queue = sum_list (map (\<lambda>(alo, ahi, blo, bhi). 2 * (ahi - alo) + 1) queue)"

termination match_loop
proof (relation "measure (\<lambda>(a, b, b2j, queue, blocks). queue_size queue)")
  show "wf (measure (\<lambda>(a, b, b2j, queue, blocks). queue_size queue))"
    by simp
next
  fix a b :: string and b2j :: "char \<rightharpoonup> nat list" and alo ahi blo bhi :: nat
    and queue :: "(nat \<times> nat \<times> nat \<times> nat) list" and matching_blocks :: "match list"
    and i :: nat and y :: "nat \<times> nat" and j k :: nat
  assume "(i, y) = find_longest_match a b b2j alo ahi blo bhi" "(j, k) = y" "k \<noteq> 0"
  then have "find_longest_match a b b2j alo ahi blo bhi = (i, j, k)" "k \<noteq> 0"
    by auto
  then have "alo \<le> i \<and> i + k \<le> ahi \<and> blo \<le> j \<and> j + k \<le> bhi"
    by (rule find_longest_match_bounds)
  then show "((a, b, b2j,
        (if i + k < ahi \<and> j + k < bhi then [(i + k, ahi, j + k, bhi)] else []) @
        (if alo < i \<and> blo < j then [(alo, i, blo, j)] else []) @ queue,
        matching_blocks @ [(i, j, k)]),
       (a, b, b2j, (alo, ahi, blo, bhi) # queue, matching_blocks))
      \<in> measure (\<lambda>(a, b, b2j, queue, blocks). queue_size queue)"
    using \<open>k \<noteq> 0\<close> by (auto simp: queue_size_def)
next
  fix a b :: string and b2j :: "char \<rightharpoonup> nat list" and alo ahi blo bhi :: nat
    and queue :: "(nat \<times> nat \<times> nat \<times> nat) list" and matching_blocks :: "match list"
  show "((a, b, b2j, queue, matching_blocks),
       (a, b, b2j, (alo, ahi, blo, bhi) # queue, matching_blocks))
      \<in> measure (\<lambda>(a, b, b2j, queue, blocks). queue_size queue)"
    by (simp add: queue_size_def)
qed

text \<open>The loop that collapses adjacent blocks of the sorted list: \<open>(i1, j1, k1)\<close> is the
  block under construction, \<open>non_adjacent\<close> the blocks already emitted.\<close>

fun collapse :: "match \<Rightarrow> match list \<Rightarrow> match list \<Rightarrow> match list" where
  "collapse (i1, j1, k1) non_adjacent [] =
     (if k1 \<noteq> 0 then non_adjacent @ [(i1, j1, k1)] else non_adjacent)"
| "collapse (i1, j1, k1) non_adjacent ((i2, j2, k2) # rest) =
     (if i1 + k1 = i2 \<and> j1 + k1 = j2 then collapse (i1, j1, k1 + k2) non_adjacent rest
      else collapse (i2, j2, k2)
             (if k1 \<noteq> 0 then non_adjacent @ [(i1, j1, k1)] else non_adjacent) rest)"

definition get_matching_blocks :: "string \<Rightarrow> string \<Rightarrow> match list" where
  "get_matching_blocks a b =
     (let la = length a; lb = length b;
          matching_blocks = match_loop a b (chain_b b) [(0, la, 0, lb)] [];
          non_adjacent = collapse (0, 0, 0) [] (sort matching_blocks)
      in non_adjacent @ [(la, lb, 0)])"

definition calculate_ratio :: "nat \<Rightarrow> nat \<Rightarrow> rat" where
  "calculate_ratio matches len = (if len \<noteq> 0 then 2 * of_nat matches / of_nat len else 1)"

definition matched_total :: "match list \<Rightarrow> nat" where
  "matched_total blocks = sum_list (map (\<lambda>(i, j, k). k) blocks)"

definition ratio :: "string \<Rightarrow> string \<Rightarrow> rat" where
  "ratio a b = calculate_ratio (matched_total (get_matching_blocks a b)) (length a + length b)"

section \<open>The scorer: \<^verbatim>\<open>WorkingRAGMetric.__call__\<close>\<close>

text \<open>\<^verbatim>\<open>_check_key_info\<close>: the share of the gold text's content words that the prediction
  holds.\<close>

definition stop_words :: "string set" where
  "stop_words = set [''is'', ''was'', ''the'', ''a'', ''an'', ''and'', ''or'', ''but'', ''in'', ''on'',
     ''at'', ''to'', ''for'', ''of'', ''with'', ''by'', ''from'']"

definition check_key_info :: "string \<Rightarrow> string \<Rightarrow> bool" where
  "check_key_info gold pred =
     (let gold_words = set (split (lower gold));
          pred_words = set (split (lower pred));
          gold_words = gold_words - stop_words;
          pred_words = pred_words - stop_words
      in if gold_words = {} then False
         else
           (let overlap = card (gold_words \<inter> pred_words);
                overlap_ratio = (of_nat overlap :: rat) / of_nat (card gold_words)
            in 1 / 2 \<le> overlap_ratio))"

text \<open>The result of a call: one float, or a dict from signal names to floats (in insertion
  order) when \<^verbatim>\<open>trace\<close> is true.\<close>

datatype score = Scalar rat | Detailed "(string \<times> rat) list"

record metric =
  output_field :: string

text \<open>The signals computed from the two extracted texts (lines 30 to 60).\<close>

definition exact_match :: "string \<Rightarrow> string \<Rightarrow> rat" where
  "exact_match gold_clean pred_clean = (if lower gold_clean = lower pred_clean then 1 else 0)"

definition substring_bonus :: "string \<Rightarrow> string \<Rightarrow> rat \<Rightarrow> rat" where
  "substring_bonus gold_clean pred_clean similarity =
     (if str_in (lower gold_clean) (lower pred_clean) \<or> str_in (lower pred_clean) (lower gold_clean)
      then max similarity (7 / 10) else similarity)"

definition key_info_bonus :: "bool \<Rightarrow> rat \<Rightarrow> rat" where
  "key_info_bonus contains_key_info similarity =
     (if contains_key_info then max similarity (8 / 10) else similarity)"

definition score_texts :: "string \<Rightarrow> string \<Rightarrow> bool \<Rightarrow> score" where
  "score_texts gold_text pred_text trace =
     (if gold_text = [] \<or> pred_text = [] then
        (if trace then Detailed [(''exact_match'', 0), (''similarity'', 0), (''total'', 0)]
         else Scalar 0)
      else
        (let gold_clean = normalize_text gold_text;
             pred_clean = normalize_text pred_text;
             em = exact_match gold_clean pred_clean;
             similarity = ratio (lower gold_clean) (lower pred_clean);
             similarity = substring_bonus gold_clean pred_clean similarity;
             contains_key_info = check_key_info gold_clean pred_clean;
             similarity = key_info_bonus contains_key_info similarity;
             total_score = max em similarity
         in if trace then
              Detailed [(''exact_match'', em), (''similarity'', similarity),
                (''contains_key_info'', if contains_key_info then 1 else 0),
                (''total'', total_score)]
            else Scalar total_score))"

text \<open>The body of the \<^verbatim>\<open>try\<close> block: \<open>Inl e\<close> when it raises \<open>e\<close>.\<close>

definition score_body :: "metric \<Rightarrow> pyval \<Rightarrow> pyval \<Rightarrow> bool \<Rightarrow> exn + score" where
  "score_body self gold pred trace =
     (case extract_text (output_field self) gold of
        Inl e \<Rightarrow> Inl e
      | Inr gold_text \<Rightarrow>
          (case extract_text (output_field self) pred of
             Inl e \<Rightarrow> Inl e
           | Inr pred_text \<Rightarrow> Inr (score_texts gold_text pred_text trace)))"

text \<open>The whole call, with its handler \<^verbatim>\<open>except Exception as e\<close>.  The standard output is
  passed through: the handler prints one line to it.\<close>

definition call :: "metric \<Rightarrow> pyval \<Rightarrow> pyval \<Rightarrow> bool \<Rightarrow> string list \<Rightarrow> score \<times> string list" where
  "call self gold pred trace out =
     (case score_body self gold pred trace of
        Inr r \<Rightarrow> (r, out)
      | Inl (Exception msg) \<Rightarrow>
          (if trace then Detailed [(''error'', 1), (''total'', 0)] else Scalar 0,
           out @ [''Error in RAG metric: '' @ msg]))"

section \<open>Properties of the extractor\<close>

text \<open>A text is trimmed when it has no whitespace at either end.\<close>

definition trimmed :: "string \<Rightarrow> bool" where
  "trimmed s = (s = [] \<or> (\<not> isspace (hd s) \<and> \<not> isspace (last s)))"


lemma strip_Nil [simp]: "strip [] = []"
  by (simp add: strip_def)


lemma strip_trimmed: "trimmed s \<Longrightarrow> strip s = s"
proof (cases "s = []")
  case True
  then show ?thesis by simp
next
  case False
  assume "trimmed s"
  with False have h: "\<not> isspace (hd s)" and l: "\<not> isspace (last s)"
    by (auto simp: trimmed_def)
  from False h have 1: "dropWhile isspace s = s"
    by (cases s) auto
  from False l have "\<not> isspace (hd (rev s))"
    by (simp add: hd_rev)
  with False have 2: "dropWhile isspace (rev s) = rev s"
    by (cases "rev s") auto
  show ?thesis
    by (simp add: strip_def 1 2)
qed
















section \<open>Properties of the sequence matcher\<close>

text \<open>The characters of \<open>a\<close>, and of \<open>b\<close>, that the ranges of the work list span.\<close>

definition span_a :: "(nat \<times> nat \<times> nat \<times> nat) list \<Rightarrow> nat" where
  "span_a queue = sum_list (map (\<lambda>(alo, ahi, blo, bhi). ahi - alo) queue)"

definition span_b :: "(nat \<times> nat \<times> nat \<times> nat) list \<Rightarrow> nat" where
  "span_b queue = sum_list (map (\<lambda>(alo, ahi, blo, bhi). bhi - blo) queue)"

lemma matched_total_append [simp]:
  "matched_total (xs @ ys) = matched_total xs + matched_total ys"
  by (simp add: matched_total_def)

lemma matched_total_simps [simp]:
  "matched_total [] = 0" "matched_total ((i, j, k) # xs) = k + matched_total xs"
  by (simp_all add: matched_total_def)

lemma match_loop_total_le:
  "matched_total (match_loop a b b2j queue blocks) \<le> matched_total blocks + span_a queue
   \<and> matched_total (match_loop a b b2j queue blocks) \<le> matched_total blocks + span_b queue"
proof (induction a b b2j queue blocks rule: match_loop.induct)
  case (1 a b b2j blocks)
  then show ?case by simp
next
  case (2 a b b2j alo ahi blo bhi queue blocks)
  obtain i j k where m: "find_longest_match a b b2j alo ahi blo bhi = (i, j, k)"
    by (cases "find_longest_match a b b2j alo ahi blo bhi") auto
  show ?case
  proof (cases "k = 0")
    case True
    then show ?thesis
      using "2.IH"(2) [OF m [symmetric] refl] m by (simp add: span_a_def span_b_def)
  next
    case False
    define queue' where "queue' =
      (if i + k < ahi \<and> j + k < bhi then [(i + k, ahi, j + k, bhi)] else []) @
      (if alo < i \<and> blo < j then [(alo, i, blo, j)] else []) @ queue"
    have bounds: "alo \<le> i \<and> i + k \<le> ahi \<and> blo \<le> j \<and> j + k \<le> bhi"
      using m False by (rule find_longest_match_bounds)
    have sa: "k + span_a queue' \<le> span_a ((alo, ahi, blo, bhi) # queue)"
      using bounds by (auto simp: queue'_def span_a_def)
    have sb: "k + span_b queue' \<le> span_b ((alo, ahi, blo, bhi) # queue)"
      using bounds by (auto simp: queue'_def span_b_def)
    have eq: "match_loop a b b2j ((alo, ahi, blo, bhi) # queue) blocks =
        match_loop a b b2j queue' (blocks @ [(i, j, k)])"
      using m False by (simp add: queue'_def)
    have IH: "matched_total (match_loop a b b2j queue' (blocks @ [(i, j, k)]))
          \<le> matched_total (blocks @ [(i, j, k)]) + span_a queue'
        \<and> matched_total (match_loop a b b2j queue' (blocks @ [(i, j, k)]))
          \<le> matched_total (blocks @ [(i, j, k)]) + span_b queue'"
      using "2.IH"(1) [OF m [symmetric] refl False] by (simp add: queue'_def)
    show ?thesis
      unfolding eq using IH sa sb by simp
  qed
qed

lemma matched_total_collapse:
  "matched_total (collapse m non_adjacent rest) =
     snd (snd m) + matched_total non_adjacent + matched_total rest"
  by (induction m non_adjacent rest rule: collapse.induct) auto

lemma matched_total_sort: "matched_total (sort blocks) = matched_total blocks"
proof -
  have "matched_total xs = sum_mset (image_mset (\<lambda>(i, j, k). k) (mset xs))" for xs :: "match list"
    by (simp add: matched_total_def flip: sum_mset_sum_list)
  then show ?thesis by simp
qed

lemma matched_total_blocks:
  "matched_total (get_matching_blocks a b) =
     matched_total (match_loop a b (chain_b b) [(0, length a, 0, length b)] [])"
  by (simp add: get_matching_blocks_def Let_def matched_total_collapse matched_total_sort)

lemma matched_total_le:
  "matched_total (get_matching_blocks a b) \<le> length a"
  "matched_total (get_matching_blocks a b) \<le> length b"
  using match_loop_total_le [of a b "chain_b b" "[(0, length a, 0, length b)]" "[]"]
  by (simp_all add: matched_total_blocks span_a_def span_b_def)

lemma ratio_bounds: "0 \<le> ratio a b \<and> ratio a b \<le> 1"
proof -
  have "2 * matched_total (get_matching_blocks a b) \<le> length a + length b"
    using matched_total_le [of a b] by simp
  then have "2 * (of_nat (matched_total (get_matching_blocks a b)) :: rat) \<le> of_nat (length a + length b)"
    by (metis of_nat_le_iff of_nat_mult of_nat_numeral)
  then show ?thesis
    by (simp add: ratio_def calculate_ratio_def divide_le_eq)
qed

section \<open>Reading a result\<close>

text \<open>The keys of a detailed result (none for a scalar), and the total of either kind of
  result: the scalar itself, or the value under the key \<^verbatim>\<open>total\<close>.\<close>

definition result_keys :: "score \<Rightarrow> string list" where
  "result_keys r = (case r of Scalar x \<Rightarrow> [] | Detailed kvs \<Rightarrow> map fst kvs)"

definition total_of :: "score \<Rightarrow> rat option" where
  "total_of r = (case r of Scalar x \<Rightarrow> Some x | Detailed kvs \<Rightarrow> map_of kvs ''total'')"



section \<open>Properties of the scorer\<close>

lemma substring_bonus_ge: "x \<le> substring_bonus g p x"
  by (simp add: substring_bonus_def)

lemma key_info_bonus_ge: "x \<le> key_info_bonus c x"
  by (simp add: key_info_bonus_def)

lemma normalize_text_Nil: "normalize_text [] = []"
  by (simp add: normalize_text_def remove_punct_def)

lemma exact_match_bounds: "0 \<le> exact_match g p \<and> exact_match g p \<le> 1"
  by (simp add: exact_match_def)

lemma total_of_score_texts:
  "total_of (score_texts gold_text pred_text trace) =
     Some (if gold_text = [] \<or> pred_text = [] then 0
       else max (exact_match (normalize_text gold_text) (normalize_text pred_text))
         (key_info_bonus (check_key_info (normalize_text gold_text) (normalize_text pred_text))
           (substring_bonus (normalize_text gold_text) (normalize_text pred_text)
             (ratio (lower (normalize_text gold_text)) (lower (normalize_text pred_text))))))"
  by (simp add: total_of_def score_texts_def Let_def)

lemma try_fields_skip:
  assumes "\<forall>g \<in> set pre. dict_get kvs g = None" and "dict_get kvs fld = Some (Other s r)"
  shows "try_fields (pre @ fld # post) kvs = try_fields post kvs"
  using assms by (induction pre) auto

section \<open>The similarity of the specification\<close>

text \<open>
  The similarity as the specification words it.  \<open>common_prefix_len\<close> is the length of
  the longest common block at the start of two texts.  \<open>spec_longest_block a b\<close> is the
  longest common contiguous block of \<open>a\<close> and \<open>b\<close> as (start in \<open>a\<close>, start in \<open>b\<close>,
  length): of the longest blocks the one that starts earliest in \<open>a\<close> and, of those, earliest
  in \<open>b\<close>; \<open>(0, 0, 0)\<close> when no character is common.  \<open>spec_matched\<close> takes that block
  and recurses on the texts to its left and on the texts to its right, adding the lengths.
  \<open>spec_similarity\<close> is twice the matched length over the total length.
\<close>

fun common_prefix_len :: "string \<Rightarrow> string \<Rightarrow> nat" where
  "common_prefix_len [] ys = 0"
| "common_prefix_len (x # xs) [] = 0"
| "common_prefix_len (x # xs) (y # ys) = (if x = y then Suc (common_prefix_len xs ys) else 0)"

text \<open>The step of a search for the first largest value: \<open>blk x\<close> replaces the best block so
  far when \<open>val x\<close> is larger than its length.\<close>

definition improve :: "('c \<Rightarrow> nat) \<Rightarrow> ('c \<Rightarrow> match) \<Rightarrow> 'c \<Rightarrow> match \<Rightarrow> match" where
  "improve val blk x best = (if snd (snd best) < val x then blk x else best)"

definition spec_longest_block :: "string \<Rightarrow> string \<Rightarrow> match" where
  "spec_longest_block a b =
     fold (\<lambda>(i, j) (bi, bj, bk).
         let k = common_prefix_len (drop i a) (drop j b)
         in if bk < k then (i, j, k) else (bi, bj, bk))
       (List.product [0..<length a] [0..<length b]) (0, 0, 0)"

lemma fold_improve:
  assumes "\<forall>x \<in> set xs. snd (snd (blk x)) = val x"
  shows "(\<forall>x \<in> set xs. val x \<le> snd (snd (fold (improve val blk) xs init)))
    \<and> snd (snd init) \<le> snd (snd (fold (improve val blk) xs init))
    \<and> (fold (improve val blk) xs init = init
       \<or> (\<exists>us x vs. xs = us @ x # vs \<and> fold (improve val blk) xs init = blk x
            \<and> (\<forall>u \<in> set us. val u < val x) \<and> snd (snd init) < val x))"
  using assms
proof (induction xs rule: rev_induct)
  case Nil
  then show ?case by simp
next
  case (snoc x xs)
  let ?R = "fold (improve val blk) xs init"
  have IH: "(\<forall>x \<in> set xs. val x \<le> snd (snd ?R))" "snd (snd init) \<le> snd (snd ?R)"
    "?R = init \<or> (\<exists>us x vs. xs = us @ x # vs \<and> ?R = blk x
            \<and> (\<forall>u \<in> set us. val u < val x) \<and> snd (snd init) < val x)"
    using snoc by auto
  have sz: "snd (snd (blk x)) = val x"
    using snoc.prems by simp
  show ?case
  proof (cases "snd (snd ?R) < val x")
    case True
    then have R': "fold (improve val blk) (xs @ [x]) init = blk x"
      by (simp add: improve_def)
    have "\<forall>u \<in> set xs. val u < val x"
      using IH(1) True by fastforce
    moreover have "snd (snd init) < val x"
      using IH(2) True by simp
    ultimately have "\<exists>us y vs. xs @ [x] = us @ y # vs \<and> blk x = blk y
            \<and> (\<forall>u \<in> set us. val u < val y) \<and> snd (snd init) < val y"
      by blast
    moreover have "\<forall>y \<in> set (xs @ [x]). val y \<le> val x"
      using IH(1) True by fastforce
    ultimately show ?thesis
      unfolding R' sz using IH(2) True by auto
  next
    case False
    then have R': "fold (improve val blk) (xs @ [x]) init = ?R"
      by (simp add: improve_def)
    have "?R = init \<or> (\<exists>us y vs. xs @ [x] = us @ y # vs \<and> ?R = blk y
            \<and> (\<forall>u \<in> set us. val u < val y) \<and> snd (snd init) < val y)"
      using IH(3)
    proof
      assume "?R = init" then show ?thesis by simp
    next
      assume "\<exists>us x vs. xs = us @ x # vs \<and> ?R = blk x
            \<and> (\<forall>u \<in> set us. val u < val x) \<and> snd (snd init) < val x"
      then obtain us y vs where "xs = us @ y # vs" "?R = blk y"
        "\<forall>u \<in> set us. val u < val y" "snd (snd init) < val y" by blast
      then have "xs @ [x] = us @ y # (vs @ [x])" by simp
      then show ?thesis
        using \<open>?R = blk y\<close> \<open>\<forall>u \<in> set us. val u < val y\<close> \<open>snd (snd init) < val y\<close> by blast
    qed
    then show ?thesis
      unfolding R' using IH(1,2) False by auto
  qed
qed

lemma spec_longest_block_improve:
  "spec_longest_block a b =
     fold (improve (\<lambda>(i, j). common_prefix_len (drop i a) (drop j b))
             (\<lambda>(i, j). (i, j, common_prefix_len (drop i a) (drop j b))))
       (List.product [0..<length a] [0..<length b]) (0, 0, 0)"
proof -
  have "(\<lambda>(i, j) (bi, bj, bk).
         let k = common_prefix_len (drop i a) (drop j b)
         in if bk < k then (i, j, k) else (bi, bj, bk))
      = improve (\<lambda>(i, j). common_prefix_len (drop i a) (drop j b))
             (\<lambda>(i, j). (i, j, common_prefix_len (drop i a) (drop j b)))"
    by (auto simp: improve_def fun_eq_iff Let_def)
  then show ?thesis
    by (simp add: spec_longest_block_def)
qed

lemma common_prefix_len_le:
  "common_prefix_len xs ys \<le> length xs \<and> common_prefix_len xs ys \<le> length ys"
  by (induction xs ys rule: common_prefix_len.induct) auto

lemma spec_longest_block_bounds:
  assumes "spec_longest_block a b = (i, j, k)" and "k \<noteq> 0"
  shows "i + k \<le> length a \<and> j + k \<le> length b"
proof -
  let ?val = "\<lambda>(i, j). common_prefix_len (drop i a) (drop j b)"
  let ?blk = "\<lambda>(i, j). (i, j, common_prefix_len (drop i a) (drop j b))"
  let ?C = "List.product [0..<length a] [0..<length b]"
  have "\<forall>x \<in> set ?C. snd (snd (?blk x)) = ?val x"
    by auto
  from fold_improve [OF this, of "(0, 0, 0)"]
  have "fold (improve ?val ?blk) ?C (0, 0, 0) = (0, 0, 0)
      \<or> (\<exists>x \<in> set ?C. fold (improve ?val ?blk) ?C (0, 0, 0) = ?blk x)"
    by fastforce
  then obtain i' j' where "(i', j') \<in> set ?C" "(i, j, k) = ?blk (i', j')"
    using assms by (auto simp: spec_longest_block_improve)
  then have "i' = i" "j' = j" "k = common_prefix_len (drop i a) (drop j b)" "i < length a" "j < length b"
    by auto
  then show ?thesis
    using common_prefix_len_le [of "drop i a" "drop j b"] by auto
qed

function spec_matched :: "string \<Rightarrow> string \<Rightarrow> nat" where
  "spec_matched a b =
     (case spec_longest_block a b of
        (i, j, k) \<Rightarrow>
          if k = 0 then 0
          else spec_matched (take i a) (take j b) + k
             + spec_matched (drop (i + k) a) (drop (j + k) b))"
  by pat_completeness auto

termination spec_matched
proof (relation "measure (\<lambda>(a, b). length a)")
  show "wf (measure (\<lambda>(a, b). length a))"
    by simp
next
  fix a b :: string and i :: nat and y :: "nat \<times> nat" and j k :: nat
  assume "(i, y) = spec_longest_block a b" "(j, k) = y" "k \<noteq> 0"
  then have "i + k \<le> length a \<and> j + k \<le> length b"
    using spec_longest_block_bounds [of a b i j k] by auto
  then show "((take i a, take j b), (a, b)) \<in> measure (\<lambda>(a, b). length a)"
    using \<open>k \<noteq> 0\<close> by auto
next
  fix a b :: string and i :: nat and y :: "nat \<times> nat" and j k :: nat
  assume "(i, y) = spec_longest_block a b" "(j, k) = y" "k \<noteq> 0"
  then have "i + k \<le> length a \<and> j + k \<le> length b"
    using spec_longest_block_bounds [of a b i j k] by auto
  then show "((drop (i + k) a, drop (j + k) b), (a, b)) \<in> measure (\<lambda>(a, b). length a)"
    using \<open>k \<noteq> 0\<close> by auto
qed

declare spec_matched.simps [simp del]

definition spec_similarity :: "string \<Rightarrow> string \<Rightarrow> rat" where
  "spec_similarity a b = 2 * of_nat (spec_matched a b) / of_nat (length a + length b)"

section \<open>The sequence matcher computes the similarity of the specification\<close>

text \<open>The positions of a character in \<open>b\<close>, ascending: the entry of \<^verbatim>\<open>b2j\<close> when no character
  is purged.\<close>

definition positions :: "string \<Rightarrow> char \<Rightarrow> nat list" where
  "positions b c = [j \<leftarrow> [0..<length b]. b ! j = c]"

lemma positions_snoc:
  "positions (b @ [x]) c = positions b c @ (if x = c then [length b] else [])"
proof -
  have "[j \<leftarrow> [0..<length b]. (b @ [x]) ! j = c] = [j \<leftarrow> [0..<length b]. b ! j = c]"
    by (rule filter_cong) (auto simp: nth_append)
  then show ?thesis
    by (simp add: positions_def)
qed

lemma b2j_all_snoc:
  "b2j_all (b @ [x]) =
     (b2j_all b)(x \<mapsto> (case b2j_all b x of None \<Rightarrow> [] | Some indices \<Rightarrow> indices) @ [length b])"
  by (simp add: b2j_all_def enumerate_append_eq)

lemma b2j_all_positions:
  "(case b2j_all b c of None \<Rightarrow> [] | Some js \<Rightarrow> js) = positions b c"
proof (induction b rule: rev_induct)
  case Nil
  then show ?case by (simp add: b2j_all_def positions_def)
next
  case (snoc x b)
  then show ?case
    by (simp add: b2j_all_snoc positions_snoc)
qed

lemma chain_b_positions:
  "length b < 200 \<Longrightarrow> (case chain_b b c of None \<Rightarrow> [] | Some js \<Rightarrow> js) = positions b c"
  by (simp add: chain_b_def Let_def b2j_all_positions)

lemma sorted_positions: "sorted (positions b c)"
  by (simp add: positions_def sorted_wrt_filter)

lemma positions_range:
  "bhi \<le> length b \<Longrightarrow>
   [j \<leftarrow> positions b c. blo \<le> j \<and> j < bhi] = [j \<leftarrow> [blo..<bhi]. b ! j = c]"
proof -
  assume le: "bhi \<le> length b"
  have "[j \<leftarrow> [0..<length b]. blo \<le> j \<and> j < bhi] = [blo..<bhi]"
  proof (rule sorted_distinct_set_unique)
    show "set [j \<leftarrow> [0..<length b]. blo \<le> j \<and> j < bhi] = set [blo..<bhi]"
      using le by auto
  qed (simp_all add: sorted_wrt_filter)
  then have "[j \<leftarrow> [blo..<bhi]. b ! j = c] = [j \<leftarrow> [j \<leftarrow> [0..<length b]. blo \<le> j \<and> j < bhi]. b ! j = c]"
    by simp
  also have "\<dots> = [j \<leftarrow> positions b c. blo \<le> j \<and> j < bhi]"
    by (simp add: positions_def conj_commute)
  finally show ?thesis by simp
qed

text \<open>One iteration of the inner loop for a position inside the range.\<close>

definition row_step :: "nat \<Rightarrow> (nat \<rightharpoonup> nat) \<Rightarrow> nat \<Rightarrow> (nat \<rightharpoonup> nat) \<times> match \<Rightarrow> (nat \<rightharpoonup> nat) \<times> match" where
  "row_step i j2len j st =
     (case st of (new, bi, bj, bk) \<Rightarrow>
        let k = (if j = 0 then 0 else case j2len (j - 1) of None \<Rightarrow> 0 | Some v \<Rightarrow> v) + 1
        in if bk < k then (new(j \<mapsto> k), i + 1 - k, j + 1 - k, k) else (new(j \<mapsto> k), bi, bj, bk))"

lemma scan_row_fold:
  "sorted js \<Longrightarrow>
   scan_row i blo bhi j2len js st = fold (row_step i j2len) [j \<leftarrow> js. blo \<le> j \<and> j < bhi] st"
proof (induction js arbitrary: st)
  case Nil
  then show ?case by simp
next
  case (Cons j js)
  obtain new bi bj bk where st: "st = (new, bi, bj, bk)"
    by (cases st) auto
  have sorted: "sorted js" and above: "\<forall>j' \<in> set js. j \<le> j'"
    using Cons.prems by auto
  show ?case
  proof (cases "j < blo")
    case True
    then show ?thesis
      using Cons.IH [OF sorted] st by simp
  next
    case lo: False
    show ?thesis
    proof (cases "bhi \<le> j")
      case True
      then have "[j' \<leftarrow> js. blo \<le> j' \<and> j' < bhi] = []"
        using above by (auto simp: filter_empty_conv)
      then show ?thesis
        using True lo st by simp
    next
      case False
      then show ?thesis
        using lo st Cons.IH [OF sorted] by (simp add: row_step_def Let_def)
    qed
  qed
qed

text \<open>
  \<open>suf a b alo blo i j\<close> is the length of the longest common block that ends at \<open>a[i]\<close> and
  \<open>b[j]\<close> and starts at or after \<open>alo\<close> and \<open>blo\<close>: what \<^verbatim>\<open>j2len\<close> stores.  \<open>prev_row\<close> is
  the dict \<^verbatim>\<open>j2len\<close> at the start of iteration \<open>i\<close>.  \<open>end_val\<close> and \<open>end_block\<close> give, for
  a pair of end positions, that length and the block.
\<close>

function suf :: "string \<Rightarrow> string \<Rightarrow> nat \<Rightarrow> nat \<Rightarrow> nat \<Rightarrow> nat \<Rightarrow> nat" where
  "suf a b alo blo i j =
     (if a ! i = b ! j
      then (if alo < i \<and> blo < j then Suc (suf a b alo blo (i - 1) (j - 1)) else 1)
      else 0)"
  by pat_completeness auto

termination suf
  by (relation "measure (\<lambda>(a, b, alo, blo, i, j). i)") auto

declare suf.simps [simp del]

definition prev_row :: "string \<Rightarrow> string \<Rightarrow> nat \<Rightarrow> nat \<Rightarrow> nat \<Rightarrow> nat \<Rightarrow> (nat \<rightharpoonup> nat)" where
  "prev_row a b alo blo bhi i =
     (\<lambda>j. if alo < i \<and> blo \<le> j \<and> j < bhi \<and> a ! (i - 1) = b ! j
          then Some (suf a b alo blo (i - 1) j) else None)"

definition end_block :: "string \<Rightarrow> string \<Rightarrow> nat \<Rightarrow> nat \<Rightarrow> nat \<times> nat \<Rightarrow> match" where
  "end_block a b alo blo c =
     (case c of (i, j) \<Rightarrow> (i + 1 - suf a b alo blo i j, j + 1 - suf a b alo blo i j, suf a b alo blo i j))"

definition end_val :: "string \<Rightarrow> string \<Rightarrow> nat \<Rightarrow> nat \<Rightarrow> nat \<times> nat \<Rightarrow> nat" where
  "end_val a b alo blo c = (case c of (i, j) \<Rightarrow> suf a b alo blo i j)"

lemma suf_mismatch: "a ! i \<noteq> b ! j \<Longrightarrow> suf a b alo blo i j = 0"
  by (subst suf.simps) simp

lemma row_step_suf:
  assumes "alo \<le> i" "blo \<le> j" "j < bhi" "a ! i = b ! j"
  shows "(if j = 0 then 0 else case prev_row a b alo blo bhi i (j - 1) of None \<Rightarrow> 0 | Some v \<Rightarrow> v) + 1
     = suf a b alo blo i j"
proof (cases "alo < i \<and> blo < j")
  case True
  then have s: "suf a b alo blo i j = Suc (suf a b alo blo (i - 1) (j - 1))"
    using assms(4) by (subst suf.simps) simp
  show ?thesis
  proof (cases "a ! (i - 1) = b ! (j - 1)")
    case eq: True
    then have "prev_row a b alo blo bhi i (j - 1) = Some (suf a b alo blo (i - 1) (j - 1))"
      using True assms by (auto simp: prev_row_def)
    then show ?thesis
      using True s by simp
  next
    case False
    then have "prev_row a b alo blo bhi i (j - 1) = None"
      by (simp add: prev_row_def)
    moreover have "suf a b alo blo (i - 1) (j - 1) = 0"
      using False by (rule suf_mismatch)
    ultimately show ?thesis
      using s by simp
  qed
next
  case False
  then have s: "suf a b alo blo i j = 1"
    using assms(4) by (subst suf.simps) auto
  have "j \<noteq> 0 \<Longrightarrow> prev_row a b alo blo bhi i (j - 1) = None"
    using False assms by (auto simp: prev_row_def)
  then show ?thesis
    using s by auto
qed

lemma fold_row_step:
  assumes "alo \<le> i" and "\<forall>j \<in> set L. blo \<le> j \<and> j < bhi \<and> a ! i = b ! j"
  shows "fold (row_step i (prev_row a b alo blo bhi i)) L (new, best) =
     ((\<lambda>j. if j \<in> set L then Some (suf a b alo blo i j) else new j),
      fold (improve (end_val a b alo blo) (end_block a b alo blo)) (map (Pair i) L) best)"
  using assms(2)
proof (induction L arbitrary: new best)
  case Nil
  then show ?case by simp
next
  case (Cons j L)
  obtain bi bj bk where best: "best = (bi, bj, bk)"
    by (cases best) auto
  have k: "(if j = 0 then 0 else case prev_row a b alo blo bhi i (j - 1) of None \<Rightarrow> 0 | Some v \<Rightarrow> v) + 1
     = suf a b alo blo i j"
    using Cons.prems assms(1) by (intro row_step_suf [where bhi = bhi]) auto
  have step: "row_step i (prev_row a b alo blo bhi i) j (new, best) =
      (new(j \<mapsto> suf a b alo blo i j), improve (end_val a b alo blo) (end_block a b alo blo) (i, j) best)"
    unfolding row_step_def best using k
    by (simp add: Let_def improve_def end_val_def end_block_def del: One_nat_def)
  have "\<forall>j \<in> set L. blo \<le> j \<and> j < bhi \<and> a ! i = b ! j"
    using Cons.prems by (metis list.set_intros(2))
  from Cons.IH [OF this] show ?case
    by (simp add: step fun_eq_iff)
qed

lemma fold_improve_filter:
  "\<forall>x \<in> set xs. \<not> P x \<longrightarrow> val x = 0 \<Longrightarrow>
   fold (improve val blk) (filter P xs) s = fold (improve val blk) xs s"
proof (induction xs arbitrary: s)
  case Nil
  then show ?case by simp
next
  case (Cons x xs)
  then show ?case
    by (cases "P x") (auto simp: improve_def)
qed

lemma scan_row_positions:
  assumes "alo \<le> i" "bhi \<le> length b"
  shows "scan_row i blo bhi (prev_row a b alo blo bhi i) (positions b (a ! i)) (Map.empty, best) =
     (prev_row a b alo blo bhi (Suc i),
      fold (improve (end_val a b alo blo) (end_block a b alo blo)) (map (Pair i) [blo..<bhi]) best)"
proof -
  let ?L = "[j \<leftarrow> [blo..<bhi]. b ! j = a ! i]"
  have "scan_row i blo bhi (prev_row a b alo blo bhi i) (positions b (a ! i)) (Map.empty, best)
      = fold (row_step i (prev_row a b alo blo bhi i)) ?L (Map.empty, best)"
    by (simp add: scan_row_fold sorted_positions positions_range assms(2))
  also have "\<dots> = ((\<lambda>j. if j \<in> set ?L then Some (suf a b alo blo i j) else None),
      fold (improve (end_val a b alo blo) (end_block a b alo blo)) (map (Pair i) ?L) best)"
    by (rule fold_row_step) (use assms(1) in auto)
  also have "(\<lambda>j. if j \<in> set ?L then Some (suf a b alo blo i j) else None)
      = prev_row a b alo blo bhi (Suc i)"
    using assms(1) by (auto simp: prev_row_def fun_eq_iff)
  also have "map (Pair i) ?L = filter (\<lambda>(i', j). b ! j = a ! i') (map (Pair i) [blo..<bhi])"
    by (simp add: filter_map comp_def)
  also have "fold (improve (end_val a b alo blo) (end_block a b alo blo))
        (filter (\<lambda>(i', j). b ! j = a ! i') (map (Pair i) [blo..<bhi])) best
      = fold (improve (end_val a b alo blo) (end_block a b alo blo)) (map (Pair i) [blo..<bhi]) best"
    by (rule fold_improve_filter) (auto simp: end_val_def suf_mismatch)
  finally show ?thesis .
qed

lemma fold_product:
  "fold f (List.product xs ys) = fold (\<lambda>x. fold f (map (Pair x) ys)) xs"
  by (induction xs) (simp_all add: fun_eq_iff)

lemma scan_rows_product:
  assumes "alo \<le> ahi" "bhi \<le> length b" "length b < 200"
  shows "scan_rows a (chain_b b) alo ahi blo bhi =
     (prev_row a b alo blo bhi ahi,
      fold (improve (end_val a b alo blo) (end_block a b alo blo))
        (List.product [alo..<ahi] [blo..<bhi]) (alo, blo, 0))"
  using assms(1)
proof (induction ahi)
  case 0
  then show ?case
    by (simp add: scan_rows_def prev_row_def)
next
  case (Suc ahi)
  show ?case
  proof (cases "alo \<le> ahi")
    case True
    have "scan_rows a (chain_b b) alo (Suc ahi) blo bhi =
        (case scan_rows a (chain_b b) alo ahi blo bhi of (j2len, best) \<Rightarrow>
           scan_row ahi blo bhi j2len (positions b (a ! ahi)) (Map.empty, best))"
      using True by (simp add: scan_rows_def chain_b_positions [OF assms(3)])
    also have "\<dots> = (prev_row a b alo blo bhi (Suc ahi),
        fold (improve (end_val a b alo blo) (end_block a b alo blo)) (map (Pair ahi) [blo..<bhi])
          (fold (improve (end_val a b alo blo) (end_block a b alo blo))
             (List.product [alo..<ahi] [blo..<bhi]) (alo, blo, 0)))"
      using Suc.IH [OF True] by (simp add: scan_row_positions [OF True assms(2)])
    finally show ?thesis
      using True by (simp add: fold_product)
  next
    case False
    with Suc.prems have "alo = Suc ahi" by simp
    then show ?thesis
      by (simp add: scan_rows_def prev_row_def)
  qed
qed

text \<open>\<open>start_val\<close> and \<open>start_block\<close>: the length of the longest common block that starts
  at a pair of positions and ends before \<open>ahi\<close> and \<open>bhi\<close>, and the block.\<close>

definition start_val :: "string \<Rightarrow> string \<Rightarrow> nat \<Rightarrow> nat \<Rightarrow> nat \<times> nat \<Rightarrow> nat" where
  "start_val a b ahi bhi c =
     (case c of (i, j) \<Rightarrow> common_prefix_len (take (ahi - i) (drop i a)) (take (bhi - j) (drop j b)))"

definition start_block :: "string \<Rightarrow> string \<Rightarrow> nat \<Rightarrow> nat \<Rightarrow> nat \<times> nat \<Rightarrow> match" where
  "start_block a b ahi bhi c = (case c of (i, j) \<Rightarrow> (i, j, start_val a b ahi bhi (i, j)))"

lemma common_prefix_len_ge_iff:
  "k \<le> common_prefix_len xs ys \<longleftrightarrow>
     k \<le> length xs \<and> k \<le> length ys \<and> (\<forall>t<k. xs ! t = ys ! t)"
proof (induction xs ys arbitrary: k rule: common_prefix_len.induct)
  case (1 ys)
  then show ?case by auto
next
  case (2 x xs)
  then show ?case by auto
next
  case (3 x xs y ys)
  show ?case
  proof (cases k)
    case 0
    then show ?thesis by simp
  next
    case (Suc k')
    have "(\<forall>t<Suc k'. (x # xs) ! t = (y # ys) ! t) \<longleftrightarrow> x = y \<and> (\<forall>t<k'. xs ! t = ys ! t)"
      by (auto simp: nth_Cons split: nat.splits)
    then show ?thesis
      using 3 [of k'] Suc by auto
  qed
qed

lemma start_val_ge_iff:
  assumes "i \<le> ahi" "ahi \<le> length a" "j \<le> bhi" "bhi \<le> length b"
  shows "k \<le> start_val a b ahi bhi (i, j) \<longleftrightarrow>
     i + k \<le> ahi \<and> j + k \<le> bhi \<and> (\<forall>t<k. a ! (i + t) = b ! (j + t))"
proof -
  have "(\<forall>t<k. take (ahi - i) (drop i a) ! t = take (bhi - j) (drop j b) ! t)
      \<longleftrightarrow> (\<forall>t<k. a ! (i + t) = b ! (j + t))"
    if "i + k \<le> ahi" "j + k \<le> bhi"
    using that assms by auto
  then show ?thesis
    using assms unfolding start_val_def prod.case common_prefix_len_ge_iff by auto
qed

lemma suf_pos_iff: "0 < suf a b alo blo i j \<longleftrightarrow> a ! i = b ! j"
  by (subst suf.simps) simp

lemma suf_ge_iff:
  assumes "alo \<le> s" "blo \<le> s'"
  shows "Suc k \<le> suf a b alo blo (s + k) (s' + k) \<longleftrightarrow> (\<forall>t<Suc k. a ! (s + t) = b ! (s' + t))"
proof (induction k)
  case 0
  show ?case
    using suf_pos_iff [of a b alo blo s s'] by (simp add: Suc_le_eq)
next
  case (Suc k)
  have lt: "alo < s + Suc k \<and> blo < s' + Suc k"
    using assms by simp
  have "suf a b alo blo (s + Suc k) (s' + Suc k) =
      (if a ! (s + Suc k) = b ! (s' + Suc k) then Suc (suf a b alo blo (s + k) (s' + k)) else 0)"
    by (subst suf.simps) (use lt in simp)
  then have "Suc (Suc k) \<le> suf a b alo blo (s + Suc k) (s' + Suc k) \<longleftrightarrow>
      a ! (s + Suc k) = b ! (s' + Suc k) \<and> Suc k \<le> suf a b alo blo (s + k) (s' + k)"
    by simp
  also have "\<dots> \<longleftrightarrow> (\<forall>t<Suc (Suc k). a ! (s + t) = b ! (s' + t))"
    unfolding Suc.IH by (metis less_Suc_eq)
  finally show ?case .
qed

lemma suf_le:
  "alo \<le> i \<Longrightarrow> blo \<le> j \<Longrightarrow>
   suf a b alo blo i j + alo \<le> i + 1 \<and> suf a b alo blo i j + blo \<le> j + 1"
proof (induction a b alo blo i j rule: suf.induct)
  case (1 a b alo blo i j)
  show ?case
  proof (cases "a ! i = b ! j \<and> alo < i \<and> blo < j")
    case True
    then have "suf a b alo blo i j = Suc (suf a b alo blo (i - 1) (j - 1))"
      by (subst suf.simps) simp
    moreover have "suf a b alo blo (i - 1) (j - 1) + alo \<le> (i - 1) + 1
        \<and> suf a b alo blo (i - 1) (j - 1) + blo \<le> (j - 1) + 1"
      using "1.IH" True by auto
    ultimately show ?thesis
      using True by auto
  next
    case False
    then have "suf a b alo blo i j \<le> 1"
      by (subst suf.simps) auto
    then show ?thesis
      using "1.prems" by simp
  qed
qed

lemma sorted_wrt_product:
  fixes xs :: "nat list" and ys :: "nat list"
  assumes "sorted_wrt (<) xs" "sorted_wrt (<) ys"
  shows "sorted_wrt (<) (List.product xs ys)"
  using assms(1)
proof (induction xs)
  case Nil
  then show ?case by simp
next
  case (Cons x xs)
  have "sorted_wrt (<) (map (Pair x) ys)"
    using assms(2) by (simp add: sorted_wrt_map)
  then show ?case
    using Cons by (auto simp: sorted_wrt_append)
qed

lemma sorted_split_ge:
  fixes x :: "nat \<times> nat"
  assumes "sorted_wrt (<) (us @ x # vs)" "y \<in> set (us @ x # vs)" "y \<notin> set us"
  shows "x \<le> y"
  using assms by (auto simp: sorted_wrt_append)

lemma end_to_start:
  assumes "alo \<le> i" "i < ahi" "ahi \<le> length a" "blo \<le> j" "j < bhi" "bhi \<le> length b"
    and "suf a b alo blo i j = k" "0 < k"
  shows "alo \<le> i + 1 - k \<and> i + 1 - k < ahi \<and> blo \<le> j + 1 - k \<and> j + 1 - k < bhi
    \<and> k \<le> start_val a b ahi bhi (i + 1 - k, j + 1 - k)"
proof -
  obtain k' where k': "k = Suc k'"
    using assms(8) by (cases k) auto
  have le: "k + alo \<le> i + 1" "k + blo \<le> j + 1"
    using suf_le [OF assms(1,4), of a b] assms(7) by auto
  define s s' where "s = i + 1 - k" and "s' = j + 1 - k"
  have ij: "i = s + k'" "j = s' + k'" and lo: "alo \<le> s" "blo \<le> s'"
    using le k' by (auto simp: s_def s'_def)
  have "Suc k' \<le> suf a b alo blo (s + k') (s' + k')"
    using assms(7) k' ij by simp
  then have blk: "\<forall>t<k. a ! (s + t) = b ! (s' + t)"
    using suf_ge_iff [OF lo, of k' a b] k' by simp
  have "k \<le> start_val a b ahi bhi (s, s')"
    using blk ij k' assms(2,3,5,6)
    by (subst start_val_ge_iff) auto
  then show ?thesis
    using lo ij k' assms(2,5) unfolding s_def s'_def by auto
qed

lemma start_to_end:
  assumes "alo \<le> i" "i < ahi" "ahi \<le> length a" "blo \<le> j" "j < bhi" "bhi \<le> length b"
    and "start_val a b ahi bhi (i, j) = k" "0 < k"
  shows "alo \<le> i + k - 1 \<and> i + k - 1 < ahi \<and> blo \<le> j + k - 1 \<and> j + k - 1 < bhi
    \<and> k \<le> suf a b alo blo (i + k - 1) (j + k - 1)"
proof -
  obtain k' where k': "k = Suc k'"
    using assms(8) by (cases k) auto
  have "k \<le> start_val a b ahi bhi (i, j)"
    using assms(7) by simp
  then have hi: "i + k \<le> ahi" "j + k \<le> bhi" and blk: "\<forall>t<k. a ! (i + t) = b ! (j + t)"
    using start_val_ge_iff [of i ahi a j bhi b k] assms(2,3,5,6) by auto
  have "Suc k' \<le> suf a b alo blo (i + k') (j + k')"
    using suf_ge_iff [OF assms(1,4), of k' a b] blk k' by simp
  then show ?thesis
    using hi k' assms(1,4) by auto
qed

lemma lex_shift:
  fixes si js ie je M :: nat
  assumes "(si, js) \<le> (ie + 1 - M, je + 1 - M)" "(ie, je) \<le> (si + M - 1, js + M - 1)"
    and "M \<le> ie + 1" "M \<le> je + 1" "0 < M"
  shows "si = ie + 1 - M \<and> js = je + 1 - M"
  using assms by auto

lemma folds_agree:
  assumes "alo \<le> ahi" "ahi \<le> length a" "blo \<le> bhi" "bhi \<le> length b"
  shows "fold (improve (end_val a b alo blo) (end_block a b alo blo))
           (List.product [alo..<ahi] [blo..<bhi]) (alo, blo, 0)
       = fold (improve (start_val a b ahi bhi) (start_block a b ahi bhi))
           (List.product [alo..<ahi] [blo..<bhi]) (alo, blo, 0)"
proof -
  let ?C = "List.product [alo..<ahi] [blo..<bhi]"
  let ?ev = "end_val a b alo blo" and ?eb = "end_block a b alo blo"
  let ?sv = "start_val a b ahi bhi" and ?sb = "start_block a b ahi bhi"
  let ?init = "(alo, blo, 0 :: nat)"
  let ?RE = "fold (improve ?ev ?eb) ?C ?init"
  let ?RS = "fold (improve ?sv ?sb) ?C ?init"
  have sortedC: "sorted_wrt (<) ?C"
    by (simp add: sorted_wrt_product)
  have szE: "\<forall>x \<in> set ?C. snd (snd (?eb x)) = ?ev x"
    by (auto simp: end_block_def end_val_def)
  have szS: "\<forall>x \<in> set ?C. snd (snd (?sb x)) = ?sv x"
    by (auto simp: start_block_def)
  have E1: "\<forall>x \<in> set ?C. ?ev x \<le> snd (snd ?RE)"
    and E3: "?RE = ?init \<or> (\<exists>us x vs. ?C = us @ x # vs \<and> ?RE = ?eb x
            \<and> (\<forall>u \<in> set us. ?ev u < ?ev x) \<and> snd (snd ?init) < ?ev x)"
    using fold_improve [OF szE, of ?init] by blast+
  have S1: "\<forall>x \<in> set ?C. ?sv x \<le> snd (snd ?RS)"
    and S3: "?RS = ?init \<or> (\<exists>us x vs. ?C = us @ x # vs \<and> ?RS = ?sb x
            \<and> (\<forall>u \<in> set us. ?sv u < ?sv x) \<and> snd (snd ?init) < ?sv x)"
    using fold_improve [OF szS, of ?init] by blast+
  show ?thesis
  proof (cases "?RE = ?init")
    case True
    have "?sv x = 0" if "x \<in> set ?C" for x
    proof -
      obtain i j where x: "x = (i, j)" by (cases x) auto
      have "?ev x = 0"
        using E1 that True by auto
      then have "a ! i \<noteq> b ! j"
        using suf_pos_iff [of a b alo blo i j] x by (simp add: end_val_def)
      then have "\<not> 1 \<le> ?sv (i, j)"
        using that x assms(2,4) by (subst start_val_ge_iff) auto
      then show ?thesis
        using x by simp
    qed
    then have "?RS = ?init"
      using S3 by fastforce
    then show ?thesis
      using True by simp
  next
    case False
    then obtain usE xe vsE where CE: "?C = usE @ xe # vsE" and RE: "?RE = ?eb xe"
      and beforeE: "\<forall>u \<in> set usE. ?ev u < ?ev xe" and posE: "0 < ?ev xe"
      using E3 by auto
    obtain ie je where xe: "xe = (ie, je)" by (cases xe) auto
    define M where "M = suf a b alo blo ie je"
    have M: "?ev xe = M" "0 < M"
      using posE xe by (simp_all add: end_val_def M_def)
    have "xe \<in> set ?C"
      using CE by (metis in_set_conv_decomp)
    then have re: "alo \<le> ie" "ie < ahi" "blo \<le> je" "je < bhi"
      using xe by auto
    have s: "alo \<le> ie + 1 - M \<and> ie + 1 - M < ahi \<and> blo \<le> je + 1 - M \<and> je + 1 - M < bhi
        \<and> M \<le> ?sv (ie + 1 - M, je + 1 - M)"
      using end_to_start [OF re(1,2) assms(2) re(3,4) assms(4) M_def [symmetric] M(2)] .
    then have sC: "(ie + 1 - M, je + 1 - M) \<in> set ?C"
      by simp
    have szRE: "snd (snd ?RE) = M"
      using RE xe by (simp add: end_block_def M_def)
    have "M \<le> snd (snd ?RS)"
      using S1 sC s by (meson order_trans)
    then have "?RS \<noteq> ?init"
      using M(2) by auto
    then obtain usS xs vsS where CS: "?C = usS @ xs # vsS" and RS: "?RS = ?sb xs"
      and beforeS: "\<forall>u \<in> set usS. ?sv u < ?sv xs"
      using S3 by auto
    obtain si js where xs: "xs = (si, js)" by (cases xs) auto
    define MS where "MS = ?sv (si, js)"
    have szRS: "snd (snd ?RS) = MS"
      using RS xs by (simp add: start_block_def MS_def)
    have MS: "M \<le> MS"
      using \<open>M \<le> snd (snd ?RS)\<close> szRS by simp
    then have posS: "0 < MS"
      using M(2) by simp
    have "xs \<in> set ?C"
      using CS by (metis in_set_conv_decomp)
    then have rs: "alo \<le> si" "si < ahi" "blo \<le> js" "js < bhi"
      using xs by auto
    have e: "alo \<le> si + MS - 1 \<and> si + MS - 1 < ahi \<and> blo \<le> js + MS - 1 \<and> js + MS - 1 < bhi
        \<and> MS \<le> suf a b alo blo (si + MS - 1) (js + MS - 1)"
      using start_to_end [OF rs(1,2) assms(2) rs(3,4) assms(4) MS_def [symmetric] posS] .
    then have eC: "(si + MS - 1, js + MS - 1) \<in> set ?C"
      by simp
    have "?ev (si + MS - 1, js + MS - 1) \<le> M"
      using E1 eC szRE by (metis)
    then have "MS \<le> M"
      using e by (simp add: end_val_def)
    with MS have eq: "MS = M" by simp
    have svs: "?sv (ie + 1 - M, je + 1 - M) = M"
      using s S1 sC szRS eq by (metis le_antisym)
    have eve: "?ev (si + M - 1, js + M - 1) = M"
      using e \<open>?ev (si + MS - 1, js + MS - 1) \<le> M\<close> eq by (simp add: end_val_def)
    have "(ie + 1 - M, je + 1 - M) \<notin> set usS"
      using beforeS svs xs MS_def eq by auto
    then have 1: "(si, js) \<le> (ie + 1 - M, je + 1 - M)"
      using sorted_split_ge [of usS xs vsS "(ie + 1 - M, je + 1 - M)"] sortedC sC CS xs by simp
    have "(si + M - 1, js + M - 1) \<notin> set usE"
      using beforeE eve M(1) by auto
    then have 2: "(ie, je) \<le> (si + M - 1, js + M - 1)"
      using sorted_split_ge [of usE xe vsE "(si + M - 1, js + M - 1)"] sortedC eC CE xe eq by simp
    have le: "M \<le> ie + 1" "M \<le> je + 1"
      using suf_le [OF re(1,3), of a b] by (auto simp: M_def)
    have "si = ie + 1 - M \<and> js = je + 1 - M"
      using lex_shift [OF 1 2 le M(2)] .
    then show ?thesis
      using RE RS xe xs eq by (simp add: end_block_def start_block_def MS_def M_def)
  qed
qed

lemma extend_left_id:
  "\<not> (alo < bi \<and> blo < bj \<and> P (b ! (bj - 1)) \<and> a ! (bi - 1) = b ! (bj - 1)) \<Longrightarrow>
   extend_left P a b alo blo (bi, bj, bk) = (bi, bj, bk)"
  by (subst extend_left.simps) auto

lemma extend_right_id:
  "\<not> (bi + bk < ahi \<and> bj + bk < bhi \<and> P (b ! (bj + bk)) \<and> a ! (bi + bk) = b ! (bj + bk)) \<Longrightarrow>
   extend_right P a b ahi bhi (bi, bj, bk) = (bi, bj, bk)"
  by (subst extend_right.simps) auto

lemma start_fold_maximal:
  assumes "alo \<le> ahi" "ahi \<le> length a" "blo \<le> bhi" "bhi \<le> length b"
    and "fold (improve (start_val a b ahi bhi) (start_block a b ahi bhi))
           (List.product [alo..<ahi] [blo..<bhi]) (alo, blo, 0) = (bi, bj, bk)"
  shows "alo \<le> bi \<and> bi + bk \<le> ahi \<and> blo \<le> bj \<and> bj + bk \<le> bhi"
    and "\<not> (alo < bi \<and> blo < bj \<and> a ! (bi - 1) = b ! (bj - 1))"
    and "\<not> (bi + bk < ahi \<and> bj + bk < bhi \<and> a ! (bi + bk) = b ! (bj + bk))"
proof -
  let ?C = "List.product [alo..<ahi] [blo..<bhi]"
  let ?sv = "start_val a b ahi bhi" and ?sb = "start_block a b ahi bhi"
  let ?init = "(alo, blo, 0 :: nat)"
  have szS: "\<forall>x \<in> set ?C. snd (snd (?sb x)) = ?sv x"
    by (auto simp: start_block_def)
  have S1: "\<forall>x \<in> set ?C. ?sv x \<le> bk"
    and S3: "(bi, bj, bk) = ?init \<or> (\<exists>x \<in> set ?C. (bi, bj, bk) = ?sb x)"
    using fold_improve [OF szS, of ?init] unfolding assms(5) by (simp, fastforce)
  have blk: "alo \<le> bi \<and> bi + bk \<le> ahi \<and> blo \<le> bj \<and> bj + bk \<le> bhi
      \<and> (\<forall>t<bk. a ! (bi + t) = b ! (bj + t))"
  proof (cases "(bi, bj, bk) = ?init")
    case True
    then show ?thesis using assms(1,3) by simp
  next
    case False
    then have c: "(bi, bj) \<in> set ?C" and k: "bk = ?sv (bi, bj)"
      using S3 by (auto simp: start_block_def)
    have "bk \<le> ?sv (bi, bj)"
      using k by simp
    then show ?thesis
      using c assms(2,4) by (subst (asm) start_val_ge_iff) auto
  qed
  then show "alo \<le> bi \<and> bi + bk \<le> ahi \<and> blo \<le> bj \<and> bj + bk \<le> bhi"
    by simp
  show "\<not> (alo < bi \<and> blo < bj \<and> a ! (bi - 1) = b ! (bj - 1))"
  proof
    assume l: "alo < bi \<and> blo < bj \<and> a ! (bi - 1) = b ! (bj - 1)"
    have "\<forall>t<Suc bk. a ! (bi - 1 + t) = b ! (bj - 1 + t)"
    proof (intro allI impI)
      fix t assume "t < Suc bk"
      then show "a ! (bi - 1 + t) = b ! (bj - 1 + t)"
        using l blk by (cases t) auto
    qed
    then have "Suc bk \<le> ?sv (bi - 1, bj - 1)"
      using l blk assms(2,4) by (subst start_val_ge_iff) auto
    moreover have "(bi - 1, bj - 1) \<in> set ?C"
      using l blk by auto
    ultimately show False
      using S1 by fastforce
  qed
  show "\<not> (bi + bk < ahi \<and> bj + bk < bhi \<and> a ! (bi + bk) = b ! (bj + bk))"
  proof
    assume r: "bi + bk < ahi \<and> bj + bk < bhi \<and> a ! (bi + bk) = b ! (bj + bk)"
    have "\<forall>t<Suc bk. a ! (bi + t) = b ! (bj + t)"
      using r blk by (auto simp: less_Suc_eq)
    then have "Suc bk \<le> ?sv (bi, bj)"
      using r blk assms(2,4) by (subst start_val_ge_iff) auto
    moreover have "(bi, bj) \<in> set ?C"
      using r blk by auto
    ultimately show False
      using S1 by fastforce
  qed
qed

lemma find_longest_match_start_fold:
  assumes "alo \<le> ahi" "ahi \<le> length a" "blo \<le> bhi" "bhi \<le> length b" "length b < 200"
  shows "find_longest_match a b (chain_b b) alo ahi blo bhi =
     fold (improve (start_val a b ahi bhi) (start_block a b ahi bhi))
       (List.product [alo..<ahi] [blo..<bhi]) (alo, blo, 0)"
proof -
  let ?RS = "fold (improve (start_val a b ahi bhi) (start_block a b ahi bhi))
       (List.product [alo..<ahi] [blo..<bhi]) (alo, blo, 0)"
  obtain bi bj bk where R: "?RS = (bi, bj, bk)"
    by (cases ?RS) auto
  have m0: "snd (scan_rows a (chain_b b) alo ahi blo bhi) = (bi, bj, bk)"
    using scan_rows_product [OF assms(1,4,5), of a blo] folds_agree [OF assms(1-4)] R by simp
  note mx = start_fold_maximal [OF assms(1-4) R]
  have l: "extend_left P a b alo blo (bi, bj, bk) = (bi, bj, bk)" for P
    using mx(2) by (intro extend_left_id) blast
  have r: "extend_right P a b ahi bhi (bi, bj, bk) = (bi, bj, bk)" for P
    using mx(3) by (intro extend_right_id) blast
  show ?thesis
    unfolding find_longest_match_def Let_def m0 l r R ..
qed

text \<open>\<open>slice a lo hi\<close> is \<^verbatim>\<open>a[lo:hi]\<close>.\<close>

definition slice :: "string \<Rightarrow> nat \<Rightarrow> nat \<Rightarrow> string" where
  "slice a lo hi = take (hi - lo) (drop lo a)"

lemma fold_improve_map:
  assumes "\<forall>x \<in> set xs. val' x = val (f x) \<and> blk' x = g (blk (f x))"
    and "\<And>m. snd (snd (g m)) = snd (snd m)"
  shows "fold (improve val' blk') xs (g init) = g (fold (improve val blk) (map f xs) init)"
  using assms(1)
proof (induction xs arbitrary: init)
  case Nil
  then show ?case by simp
next
  case (Cons x xs)
  have "improve val' blk' x (g init) = g (improve val blk (f x) init)"
    using Cons.prems assms(2) by (simp add: improve_def)
  then show ?case
    using Cons by simp
qed

lemma product_map:
  "List.product (map f xs) (map g ys) = map (\<lambda>(x, y). (f x, g y)) (List.product xs ys)"
  by (induction xs) (simp_all add: comp_def)

lemma product_shift:
  "alo \<le> ahi \<Longrightarrow> blo \<le> bhi \<Longrightarrow>
   map (\<lambda>(i, j). (alo + i, blo + j)) (List.product [0..<ahi - alo] [0..<bhi - blo])
     = List.product [alo..<ahi] [blo..<bhi]"
proof -
  assume le: "alo \<le> ahi" "blo \<le> bhi"
  have "map ((+) alo) [0..<ahi - alo] = [alo..<ahi]" "map ((+) blo) [0..<bhi - blo] = [blo..<bhi]"
    using le map_add_upt [of alo "ahi - alo"] map_add_upt [of blo "bhi - blo"]
    by (simp_all add: add.commute [of alo] add.commute [of blo] cong: map_cong)
  then show ?thesis
    using product_map [of "(+) alo" "[0..<ahi - alo]" "(+) blo" "[0..<bhi - blo]"] by simp
qed

lemma spec_longest_block_slice:
  assumes "alo \<le> ahi" "ahi \<le> length a" "blo \<le> bhi" "bhi \<le> length b"
  shows "spec_longest_block (slice a alo ahi) (slice b blo bhi) =
     (case fold (improve (start_val a b ahi bhi) (start_block a b ahi bhi))
             (List.product [alo..<ahi] [blo..<bhi]) (alo, blo, 0)
      of (i, j, k) \<Rightarrow> (i - alo, j - blo, k))"
proof -
  let ?g = "\<lambda>(i, j, k). (i - alo, j - blo, k :: nat)"
  let ?f = "\<lambda>(i, j). (alo + i, blo + j)"
  let ?a = "slice a alo ahi" and ?b = "slice b blo bhi"
  let ?val' = "\<lambda>(i, j). common_prefix_len (drop i ?a) (drop j ?b)"
  let ?blk' = "\<lambda>(i, j). (i, j, common_prefix_len (drop i ?a) (drop j ?b))"
  have len: "length ?a = ahi - alo" "length ?b = bhi - blo"
    using assms by (simp_all add: slice_def)
  have dr: "drop i ?a = take (ahi - (alo + i)) (drop (alo + i) a)"
    "drop j ?b = take (bhi - (blo + j)) (drop (blo + j) b)" for i j
    by (simp_all add: slice_def drop_take add.commute)
  have 1: "\<forall>x \<in> set (List.product [0..<ahi - alo] [0..<bhi - blo]).
      ?val' x = start_val a b ahi bhi (?f x) \<and> ?blk' x = ?g (start_block a b ahi bhi (?f x))"
    by (auto simp: start_val_def start_block_def dr)
  have 2: "snd (snd (?g m)) = snd (snd m)" for m
    by (cases m) auto
  have "fold (improve ?val' ?blk') (List.product [0..<ahi - alo] [0..<bhi - blo]) (?g (alo, blo, 0))
      = ?g (fold (improve (start_val a b ahi bhi) (start_block a b ahi bhi))
          (map ?f (List.product [0..<ahi - alo] [0..<bhi - blo])) (alo, blo, 0))"
    using 1 2 by (rule fold_improve_map)
  then show ?thesis
    by (simp add: spec_longest_block_improve len product_shift [OF assms(1,3)])
qed

lemma find_longest_match_spec:
  assumes "alo \<le> ahi" "ahi \<le> length a" "blo \<le> bhi" "bhi \<le> length b" "length b < 200"
    and "spec_longest_block (slice a alo ahi) (slice b blo bhi) = (i, j, k)"
  shows "find_longest_match a b (chain_b b) alo ahi blo bhi = (alo + i, blo + j, k)"
proof -
  let ?RS = "fold (improve (start_val a b ahi bhi) (start_block a b ahi bhi))
       (List.product [alo..<ahi] [blo..<bhi]) (alo, blo, 0)"
  obtain bi bj bk where R: "?RS = (bi, bj, bk)"
    by (cases ?RS) auto
  have "alo \<le> bi \<and> blo \<le> bj"
    using start_fold_maximal(1) [OF assms(1-4) R] by simp
  moreover have "(i, j, k) = (bi - alo, bj - blo, bk)"
    using spec_longest_block_slice [OF assms(1-4)] assms(6) R by simp
  ultimately show ?thesis
    using find_longest_match_start_fold [OF assms(1-5)] R by simp
qed

lemma product_Nil_right: "List.product xs [] = []"
  by (induction xs) simp_all

lemma spec_matched_Nil: "spec_matched [] b = 0" "spec_matched a [] = 0"
  by (subst spec_matched.simps, simp add: spec_longest_block_def product_Nil_right)+

lemma slice_empty: "hi \<le> lo \<Longrightarrow> slice a lo hi = []"
  by (simp add: slice_def)

lemma slice_take: "i \<le> hi - lo \<Longrightarrow> take i (slice a lo hi) = slice a lo (lo + i)"
  by (simp add: slice_def min_def)

lemma slice_drop: "drop i (slice a lo hi) = slice a (lo + i) hi"
  by (simp add: slice_def drop_take add.commute)

text \<open>A range of the work list lies inside the two texts; \<open>queue_spec\<close> is the matched
  length that the specification's recursion gives for the ranges of the work list.\<close>

definition valid_range :: "string \<Rightarrow> string \<Rightarrow> nat \<times> nat \<times> nat \<times> nat \<Rightarrow> bool" where
  "valid_range a b q =
     (case q of (alo, ahi, blo, bhi) \<Rightarrow> alo \<le> ahi \<and> ahi \<le> length a \<and> blo \<le> bhi \<and> bhi \<le> length b)"

definition queue_spec :: "string \<Rightarrow> string \<Rightarrow> (nat \<times> nat \<times> nat \<times> nat) list \<Rightarrow> nat" where
  "queue_spec a b queue =
     sum_list (map (\<lambda>(alo, ahi, blo, bhi). spec_matched (slice a alo ahi) (slice b blo bhi)) queue)"

lemma match_loop_spec:
  "length b < 200 \<Longrightarrow> b2j = chain_b b \<Longrightarrow> \<forall>q \<in> set queue. valid_range a b q \<Longrightarrow>
     matched_total (match_loop a b b2j queue blocks) = matched_total blocks + queue_spec a b queue"
proof (induction a b b2j queue blocks rule: match_loop.induct)
  case (1 a b b2j blocks)
  then show ?case by (simp add: queue_spec_def)
next
  case (2 a b b2j alo ahi blo bhi queue blocks)
  have len: "length b < 200" by fact
  have v: "alo \<le> ahi" "ahi \<le> length a" "blo \<le> bhi" "bhi \<le> length b"
    using "2.prems"(3) by (auto simp: valid_range_def)
  have vq: "\<forall>q \<in> set queue. valid_range a b q"
    using "2.prems"(3) by simp
  obtain i' j' k where sp: "spec_longest_block (slice a alo ahi) (slice b blo bhi) = (i', j', k)"
    by (cases "spec_longest_block (slice a alo ahi) (slice b blo bhi)") auto
  define i j where "i = alo + i'" and "j = blo + j'"
  have m: "find_longest_match a b b2j alo ahi blo bhi = (i, j, k)"
    using find_longest_match_spec [OF v len sp] "2.prems"(2) by (simp add: i_def j_def)
  show ?case
  proof (cases "k = 0")
    case True
    have "spec_matched (slice a alo ahi) (slice b blo bhi) = 0"
      by (subst spec_matched.simps) (simp add: sp True)
    then show ?thesis
      using "2.IH"(2) [OF m [symmetric] refl _ len "2.prems"(2) vq] m True
      by (simp add: queue_spec_def)
  next
    case False
    define queue' where "queue' =
      (if i + k < ahi \<and> j + k < bhi then [(i + k, ahi, j + k, bhi)] else []) @
      (if alo < i \<and> blo < j then [(alo, i, blo, j)] else []) @ queue"
    have bounds: "alo \<le> i \<and> i + k \<le> ahi \<and> blo \<le> j \<and> j + k \<le> bhi"
      using m False by (rule find_longest_match_bounds)
    have vq': "\<forall>q \<in> set queue'. valid_range a b q"
      using vq bounds v by (auto simp: queue'_def valid_range_def)
    have eq: "match_loop a b b2j ((alo, ahi, blo, bhi) # queue) blocks =
        match_loop a b b2j queue' (blocks @ [(i, j, k)])"
      using m False by (simp add: queue'_def)
    have IH: "matched_total (match_loop a b b2j queue' (blocks @ [(i, j, k)]))
        = matched_total (blocks @ [(i, j, k)]) + queue_spec a b queue'"
      using "2.IH"(1) [OF m [symmetric] refl False len "2.prems"(2)] vq' by (simp add: queue'_def)
    have left: "spec_matched (take i' (slice a alo ahi)) (take j' (slice b blo bhi))
        = (if alo < i \<and> blo < j then spec_matched (slice a alo i) (slice b blo j) else 0)"
    proof (cases "alo < i \<and> blo < j")
      case True
      have "i' \<le> ahi - alo" "j' \<le> bhi - blo"
        using bounds by (auto simp: i_def j_def)
      then have "take i' (slice a alo ahi) = slice a alo i" "take j' (slice b blo bhi) = slice b blo j"
        by (simp_all add: slice_take i_def j_def)
      then show ?thesis
        using True by simp
    next
      case False
      then have "i' = 0 \<or> j' = 0" by (auto simp: i_def j_def)
      then show ?thesis
        using False by (auto simp: spec_matched_Nil)
    qed
    have right: "spec_matched (drop (i' + k) (slice a alo ahi)) (drop (j' + k) (slice b blo bhi))
        = (if i + k < ahi \<and> j + k < bhi then spec_matched (slice a (i + k) ahi) (slice b (j + k) bhi)
           else 0)"
    proof (cases "i + k < ahi \<and> j + k < bhi")
      case True
      then show ?thesis
        by (simp add: slice_drop i_def j_def add.assoc)
    next
      case False
      then have "slice a (i + k) ahi = [] \<or> slice b (j + k) bhi = []"
        using bounds by (auto simp: slice_empty)
      then show ?thesis
        using False by (auto simp: slice_drop i_def j_def add.assoc spec_matched_Nil)
    qed
    have "spec_matched (slice a alo ahi) (slice b blo bhi) =
        spec_matched (take i' (slice a alo ahi)) (take j' (slice b blo bhi)) + k
        + spec_matched (drop (i' + k) (slice a alo ahi)) (drop (j' + k) (slice b blo bhi))"
      by (subst spec_matched.simps) (simp add: sp False)
    then have "queue_spec a b ((alo, ahi, blo, bhi) # queue) = k + queue_spec a b queue'"
      unfolding left right by (auto simp: queue_spec_def queue'_def)
    then show ?thesis
      unfolding eq IH by simp
  qed
qed

lemma slice_whole: "slice a 0 (length a) = a"
  by (simp add: slice_def)

lemma matched_total_spec:
  "length b < 200 \<Longrightarrow> matched_total (get_matching_blocks a b) = spec_matched a b"
  using match_loop_spec [of b "chain_b b" "[(0, length a, 0, length b)]" a "[]"]
  by (simp add: matched_total_blocks valid_range_def queue_spec_def slice_whole)

lemma ratio_spec:
  "length b < 200 \<Longrightarrow> length a + length b \<noteq> 0 \<Longrightarrow> ratio a b = spec_similarity a b"
  by (simp add: ratio_def calculate_ratio_def spec_similarity_def matched_total_spec)

section \<open>The claims\<close>




text \<open>
  Claim C2.  For every pair of input values and either output mode, the total of the result
  (the scalar, or the value under \<^verbatim>\<open>total\<close>) lies in the closed interval from 0 to 1.
\<close>

theorem total_in_unit_interval:
  "\<exists>t. total_of (fst (call self gold pred trace out)) = Some t \<and> 0 \<le> t \<and> t \<le> 1"
proof (cases "score_body self gold pred trace")
  case (Inl e)
  then show ?thesis
    by (cases e) (simp add: call_def total_of_def)
next
  case (Inr r)
  then obtain gold_text pred_text where r: "r = score_texts gold_text pred_text trace"
    by (auto simp: score_body_def split: sum.splits)
  let ?g = "normalize_text gold_text" and ?p = "normalize_text pred_text"
  let ?s0 = "ratio (lower ?g) (lower ?p)"
  have s1: "0 \<le> substring_bonus ?g ?p ?s0 \<and> substring_bonus ?g ?p ?s0 \<le> 1"
    using ratio_bounds [of "lower ?g" "lower ?p"] by (auto simp: substring_bonus_def max_def)
  then have s2: "0 \<le> key_info_bonus (check_key_info ?g ?p) (substring_bonus ?g ?p ?s0)
      \<and> key_info_bonus (check_key_info ?g ?p) (substring_bonus ?g ?p ?s0) \<le> 1"
    by (auto simp: key_info_bonus_def max_def)
  show ?thesis
    using Inr r s2 exact_match_bounds [of ?g ?p]
    by (auto simp: call_def total_of_score_texts max_def)
qed

text \<open>
  Claim C3, as amended.  When the lower-cased normalized prediction text has fewer than 200
  characters and the two lower-cased normalized texts are not both empty, the similarity
  computed before the bonuses (the matcher's ratio) is the similarity of the specification:
  twice the matched length of the recursive longest-block alignment over the total length.
  For extracted texts that are not empty, that value, after the two bonuses, is what the
  detailed result holds under \<^verbatim>\<open>similarity\<close>.
\<close>

theorem similarity_is_recursive_alignment:
  assumes "length (lower (normalize_text pred_text)) < 200"
    and "length (lower (normalize_text gold_text)) + length (lower (normalize_text pred_text)) \<noteq> 0"
  shows "ratio (lower (normalize_text gold_text)) (lower (normalize_text pred_text))
       = spec_similarity (lower (normalize_text gold_text)) (lower (normalize_text pred_text))
    \<and> (gold_text \<noteq> [] \<and> pred_text \<noteq> [] \<longrightarrow>
        map_of (case score_texts gold_text pred_text True of Detailed kvs \<Rightarrow> kvs | Scalar x \<Rightarrow> [])
          ''similarity''
        = Some (key_info_bonus (check_key_info (normalize_text gold_text) (normalize_text pred_text))
            (substring_bonus (normalize_text gold_text) (normalize_text pred_text)
              (spec_similarity (lower (normalize_text gold_text))
                 (lower (normalize_text pred_text))))))"
proof -
  have "ratio (lower (normalize_text gold_text)) (lower (normalize_text pred_text))
       = spec_similarity (lower (normalize_text gold_text)) (lower (normalize_text pred_text))"
    using assms by (rule ratio_spec)
  then show ?thesis
    by (simp add: score_texts_def Let_def)
qed

text \<open>
  Claim C4, at the input \<^verbatim>\<open>"x the y"\<close>: the normalizer returns \<^verbatim>\<open>"x  y"\<close>, which holds a
  run of two spaces.  The article is deleted after the whitespace was collapsed, and the
  spaces on its two sides stay.
\<close>

theorem normalize_text_leaves_two_spaces:
  "normalize_text ''x the y'' = [CHR ''x'', CHR 0x20, CHR 0x20, CHR ''y'']"
  by code_simp

text \<open>
  Claim C5.  When both sides extract to text, neither lower-cased normalized text is empty
  and one of them occurs in the other, the total of the result is at least 0.7; and the
  substring bonus never lowers the similarity it is given.
\<close>

theorem substring_total_at_least_07:
  assumes "extract_text (output_field self) gold = Inr gold_text"
    and "extract_text (output_field self) pred = Inr pred_text"
    and "lower (normalize_text gold_text) \<noteq> []"
    and "lower (normalize_text pred_text) \<noteq> []"
    and "str_in (lower (normalize_text gold_text)) (lower (normalize_text pred_text))
       \<or> str_in (lower (normalize_text pred_text)) (lower (normalize_text gold_text))"
  shows "(\<exists>t. total_of (fst (call self gold pred trace out)) = Some t \<and> 7 / 10 \<le> t)
    \<and> similarity \<le> substring_bonus (normalize_text gold_text) (normalize_text pred_text) similarity"
proof -
  have ne: "gold_text \<noteq> []" "pred_text \<noteq> []"
    using assms(3,4) normalize_text_Nil by (auto simp: lower_def)
  let ?g = "normalize_text gold_text" and ?p = "normalize_text pred_text"
  let ?s0 = "ratio (lower ?g) (lower ?p)"
  have "7 / 10 \<le> substring_bonus ?g ?p ?s0"
    using assms(5) by (simp add: substring_bonus_def)
  also have "\<dots> \<le> key_info_bonus (check_key_info ?g ?p) (substring_bonus ?g ?p ?s0)"
    by (rule key_info_bonus_ge)
  finally have "7 / 10 \<le> max (exact_match ?g ?p)
      (key_info_bonus (check_key_info ?g ?p) (substring_bonus ?g ?p ?s0))"
    by simp
  moreover have "call self gold pred trace out = (score_texts gold_text pred_text trace, out)"
    using assms(1,2) by (simp add: call_def score_body_def)
  ultimately show ?thesis
    using ne by (simp add: total_of_score_texts substring_bonus_ge)
qed

theorem substring_total_at_least_07_witness:
  "(\<exists>t. total_of (fst (call \<lparr>output_field = ''answer''\<rparr> (Str ''Paris'') (Str ''in Paris'') True []))
        = Some t \<and> 7 / 10 \<le> t)
   \<and> (1 / 2 :: rat) \<le> substring_bonus (normalize_text ''Paris'') (normalize_text ''in Paris'') (1 / 2)"
proof -
  have g: "extract_text (output_field \<lparr>output_field = ''answer''\<rparr>) (Str ''Paris'') = Inr ''Paris''"
    by (simp add: strip_def isspace_def)
  have p: "extract_text (output_field \<lparr>output_field = ''answer''\<rparr>) (Str ''in Paris'') = Inr ''in Paris''"
    by (simp add: strip_def isspace_def)
  have ng: "lower (normalize_text ''Paris'') = ''paris''"
    by code_simp
  have np: "lower (normalize_text ''in Paris'') = ''in paris''"
    by code_simp
  have 1: "lower (normalize_text ''Paris'') \<noteq> []" and 2: "lower (normalize_text ''in Paris'') \<noteq> []"
    by (simp_all add: ng np)
  have 3: "str_in (lower (normalize_text ''Paris'')) (lower (normalize_text ''in Paris''))
      \<or> str_in (lower (normalize_text ''in Paris'')) (lower (normalize_text ''Paris''))"
    by (simp add: ng np)
  show ?thesis
    using substring_total_at_least_07 [OF g p 1 2 3, of True "[]" "1 / 2"] by simp
qed








text \<open>
  Claim C9, as amended.  The keys of a detailed result are \<^verbatim>\<open>error\<close> and \<^verbatim>\<open>total\<close> when an
  extraction raises; \<^verbatim>\<open>exact_match\<close>, \<^verbatim>\<open>similarity\<close> and \<^verbatim>\<open>total\<close> when either side
  extracts to the empty text; and \<^verbatim>\<open>exact_match\<close>, \<^verbatim>\<open>similarity\<close>, \<^verbatim>\<open>contains_key_info\<close>
  and \<^verbatim>\<open>total\<close> otherwise.
\<close>

theorem detailed_result_keys:
  "result_keys (fst (call self gold pred True out)) =
     (case extract_text (output_field self) gold of
        Inl e \<Rightarrow> [''error'', ''total'']
      | Inr gold_text \<Rightarrow>
          (case extract_text (output_field self) pred of
             Inl e \<Rightarrow> [''error'', ''total'']
           | Inr pred_text \<Rightarrow>
               if gold_text = [] \<or> pred_text = []
               then [''exact_match'', ''similarity'', ''total'']
               else [''exact_match'', ''similarity'', ''contains_key_info'', ''total'']))"
  by (simp add: call_def score_body_def score_texts_def result_keys_def Let_def
      split: sum.splits exn.splits)

text \<open>The claim as first stated fails when the gold text is empty: the result has neither
  the key \<^verbatim>\<open>contains_key_info\<close> nor the key \<^verbatim>\<open>error\<close>.\<close>

theorem empty_side_keys_counterexample:
  "fst (call \<lparr>output_field = ''answer''\<rparr> (Str []) (Str ''anything'') True [])
      = Detailed [(''exact_match'', 0), (''similarity'', 0), (''total'', 0)]
   \<and> ''contains_key_info'' \<notin> set (result_keys (fst (call \<lparr>output_field = ''answer''\<rparr> (Str []) (Str ''anything'') True [])))
   \<and> ''error'' \<notin> set (result_keys (fst (call \<lparr>output_field = ''answer''\<rparr> (Str []) (Str ''anything'') True [])))"
  by (simp add: call_def score_body_def score_texts_def result_keys_def)

text \<open>
  Claim C10.  When the first field of the list (the configured field, \<^verbatim>\<open>answer\<close>,
  \<^verbatim>\<open>response\<close>, \<^verbatim>\<open>text\<close>) that the mapping holds has a value that is neither text nor a
  mapping nor a sequence, the extractor goes on as if the list began after that field: with
  the later fields, then the nested path \<^verbatim>\<open>outputs.answer\<close>, then the string
  representation of the whole mapping.
\<close>

theorem non_text_field_is_skipped:
  assumes "[f, ''answer'', ''response'', ''text''] = pre @ fld # post"
    and "\<forall>g \<in> set pre. dict_get kvs g = None"
    and "dict_get kvs fld = Some (Other s r)"
  shows "extract_text f (Dict kvs) =
     (case try_fields post kvs of
        Some res \<Rightarrow> res
      | None \<Rightarrow> (case nested_answer kvs of Some res \<Rightarrow> res | None \<Rightarrow> str_strip (Dict kvs)))"
  using try_fields_skip [OF assms(2,3), of post] assms(1)
  by (simp del: try_fields.simps)

theorem non_text_field_is_skipped_witness:
  "extract_text ''result'' (Dict [(''answer'', Other (Inr ''42'') (Inr ''42'')), (''text'', Str '' hi '')])
     = Inr ''hi''"
  using non_text_field_is_skipped [of "''result''" "[''result'']" "''answer''" "[''response'', ''text'']"
      "[(''answer'', Other (Inr ''42'') (Inr ''42'')), (''text'', Str '' hi '')]" "Inr ''42''" "Inr ''42''"]
  by (simp add: dict_get_def strip_def isspace_def)

end
